theory Spec2Isabelle
  imports Main "HOL-Library.Word" "HOL-Library.Signed_Division"
begin

section \<open>The data model of \<open>sjtu::int2048\<close>\<close>

text \<open>
  The class \<open>int2048\<close> of \<open>src/code.cpp\<close> stores a little-endian vector \<open>a\<close> of
  \<open>int\<close> digit blocks in base \<open>BASE = 10000\<close> and a sign flag \<open>neg\<close>.  The vector is a
  list whose head is the least-significant block.  The \<open>int\<close> and \<open>long long\<close> cells of
  the arithmetic are modelled as HOL integers; C++ \<open>/\<close> and \<open>%\<close> truncate towards zero
  and are \<open>sdiv\<close> and \<open>smod\<close>.  Sizes and indices of vectors are natural numbers;
  indices of the string scanner, which the source lets run below zero, are integers.
  The one place where the source relies on 64-bit wrap-around, the constructor from
  \<open>long long\<close>, is modelled on \<open>64 word\<close>.  The theorems are about objects whose
  blocks lie in \<open>[0, BASE)\<close>; on them every intermediate value of the loops stays below
  \<open>BASE * BASE\<close>, far inside the range of the C++ types.
\<close>

record int2048 =
  a :: "int list"
  neg :: bool

definition BASE :: int where
  "BASE = 10000"

definition BASE_DIGS :: int where
  "BASE_DIGS = 4"

text \<open>The default constructor \<open>int2048()\<close>: no digit, not negative.\<close>

definition zero_int2048 :: int2048 where
  "zero_int2048 = \<lparr>a = [], neg = False\<rparr>"

subsection \<open>Helpers\<close>

text \<open>\<open>while (!a.empty() && a.back() == 0) a.pop_back();\<close>\<close>

function trim_loop :: "int list \<Rightarrow> int list" where
  "trim_loop ds = (if ds \<noteq> [] \<and> last ds = 0 then trim_loop (butlast ds) else ds)"
  by pat_completeness auto
termination
  by (relation "measure length") auto

definition trim :: "int2048 \<Rightarrow> int2048" where
  "trim x = (let ds = trim_loop (a x) in \<lparr>a = ds, neg = (if ds = [] then False else neg x)\<rparr>)"

definition is_zero :: "int2048 \<Rightarrow> bool" where
  "is_zero x = (a x = [])"

text \<open>
  \<open>abs_compare\<close>: the loop \<open>for (i = size - 1; i >= 0; --i)\<close> is a recursion on
  \<open>i + 1\<close>, so that \<open>Suc i\<close> stands for the index \<open>i\<close> still to be visited.
\<close>

fun abs_compare_loop :: "int list \<Rightarrow> int list \<Rightarrow> nat \<Rightarrow> int" where
  "abs_compare_loop xs ys 0 = 0"
| "abs_compare_loop xs ys (Suc i) =
     (if xs ! i \<noteq> ys ! i then (if xs ! i < ys ! i then - 1 else 1)
      else abs_compare_loop xs ys i)"

definition abs_compare :: "int2048 \<Rightarrow> int2048 \<Rightarrow> int" where
  "abs_compare x b =
     (if length (a x) \<noteq> length (a b) then (if length (a x) < length (a b) then - 1 else 1)
      else abs_compare_loop (a x) (a b) (length (a x)))"

subsection \<open>Constructors\<close>

text \<open>
  \<open>int2048(long long v)\<close>.  The argument is a 64-bit word read as signed.  The source
  negates a negative \<open>v\<close> and converts to \<open>unsigned long long\<close>; the negation is the
  two's-complement one of the word type, so that \<open>- v\<close> of the least value is
  \<open>2 ^ 63\<close> as an unsigned number.  The loop \<open>while (x) { push_back(x % BASE); x /= BASE; }\<close>
  runs on the unsigned word, with \<open>BASE\<close> converted to it as \<open>10000\<close>.
\<close>

function of_ll_loop :: "64 word \<Rightarrow> int list \<Rightarrow> int list" where
  "of_ll_loop x ds =
     (if x \<noteq> 0 then of_ll_loop (x div 10000) (ds @ [uint (x mod 10000)]) else ds)"
  by pat_completeness auto
termination
proof (relation "measure (\<lambda>(x, ds). unat x)")
  show "wf (measure (\<lambda>(x :: 64 word, ds :: int list). unat x))"
    by simp
next
  fix x :: "64 word" and ds :: "int list"
  assume "x \<noteq> 0"
  then have "0 < unat x"
    by (simp add: unat_gt_0)
  then have "unat x div 10000 < unat x"
    by simp
  then show "((x div 10000, ds @ [uint (x mod 10000)]), (x, ds)) \<in> measure (\<lambda>(x, ds). unat x)"
    by (simp add: unat_div)
qed

definition of_ll :: "64 word \<Rightarrow> int2048" where
  "of_ll v =
     (let ng = (sint v < 0);
          x = (if ng then - v else v)
      in trim \<lparr>a = of_ll_loop x [], neg = ng\<rparr>)"

subsection \<open>Addition and subtraction of magnitudes\<close>

text \<open>
  \<open>add_abs\<close>: the result vector is resized to the longer operand and filled in place,
  position by position, with the carry threaded through; a final carry is pushed.
\<close>

function add_abs_loop :: "int list \<Rightarrow> int list \<Rightarrow> nat \<Rightarrow> int \<Rightarrow> int list \<Rightarrow> int list \<times> int" where
  "add_abs_loop xs ys i carry rs =
     (if i < length rs then
        (let cur0 = carry;
             cur1 = (if i < length xs then cur0 + xs ! i else cur0);
             cur = (if i < length ys then cur1 + ys ! i else cur1)
         in add_abs_loop xs ys (Suc i) (cur sdiv BASE) (rs[i := cur smod BASE]))
      else (rs, carry))"
  by pat_completeness auto
termination
  by (relation "measure (\<lambda>(xs, ys, i, carry, rs). length rs - i)") auto

definition add_abs :: "int2048 \<Rightarrow> int2048 \<Rightarrow> int2048" where
  "add_abs x y =
     (let (rs, carry) =
            add_abs_loop (a x) (a y) 0 0 (replicate (max (length (a x)) (length (a y))) 0)
      in \<lparr>a = (if carry \<noteq> 0 then rs @ [carry] else rs), neg = False\<rparr>)"

text \<open>\<open>sub_abs\<close> (the source assumes \<open>|x| \<ge> |y|\<close>): subtraction with borrow, then \<open>trim\<close>.\<close>

function sub_abs_loop :: "int list \<Rightarrow> int list \<Rightarrow> nat \<Rightarrow> int \<Rightarrow> int list \<Rightarrow> int list" where
  "sub_abs_loop xs ys i carry rs =
     (if i < length xs then
        (let cur = xs ! i - carry - (if i < length ys then ys ! i else 0)
         in if cur < 0 then sub_abs_loop xs ys (Suc i) 1 (rs[i := cur + BASE])
            else sub_abs_loop xs ys (Suc i) 0 (rs[i := cur]))
      else rs)"
  by pat_completeness auto
termination
  by (relation "measure (\<lambda>(xs, ys, i, carry, rs). length xs - i)") auto

definition sub_abs :: "int2048 \<Rightarrow> int2048 \<Rightarrow> int2048" where
  "sub_abs x y =
     (let r = trim \<lparr>a = sub_abs_loop (a x) (a y) 0 0 (replicate (length (a x)) 0), neg = False\<rparr>
      in r\<lparr>neg := False\<rparr>)"

subsection \<open>Signed addition and subtraction\<close>

text \<open>The member \<open>add\<close>, which is also \<open>operator+=\<close> and \<open>operator+\<close>.\<close>

definition add :: "int2048 \<Rightarrow> int2048 \<Rightarrow> int2048" where
  "add x b =
     (let sx = neg x; sb = neg b in
      if sx = sb then (let r = add_abs x b in r\<lparr>neg := sx \<and> \<not> is_zero r\<rparr>)
      else (let cmp = abs_compare x b in
            if cmp = 0 then x\<lparr>a := [], neg := False\<rparr>
            else if cmp > 0 then (sub_abs x b)\<lparr>neg := sx\<rparr>
            else (sub_abs b x)\<lparr>neg := sb\<rparr>))"

text \<open>The member \<open>minus\<close>; the name \<open>minus\<close> is the subtraction of HOL, hence the suffix.\<close>

definition minus_op :: "int2048 \<Rightarrow> int2048 \<Rightarrow> int2048" where
  "minus_op x b =
     (let sx = neg x; sb = neg b in
      if sx \<noteq> sb then (let r = add_abs x b in r\<lparr>neg := sx \<and> \<not> is_zero r\<rparr>)
      else (let cmp = abs_compare x b in
            if cmp = 0 then x\<lparr>a := [], neg := False\<rparr>
            else if cmp > 0 then (sub_abs x b)\<lparr>neg := sx\<rparr>
            else (sub_abs b x)\<lparr>neg := \<not> sb\<rparr>))"

subsection \<open>Multiplication\<close>

text \<open>
  \<open>mul_simple\<close>.  The inner loop \<open>for (j = 0; j < y.a.size() || carry; ++j)\<close> goes on
  while a carry is left, and reads and writes \<open>r.a[i + j]\<close> with no bound check.  An
  index beyond the vector is undefined behaviour in the source; the model returns
  \<open>None\<close> there, which also bounds the loop.
\<close>

function mul_inner :: "int \<Rightarrow> int list \<Rightarrow> nat \<Rightarrow> nat \<Rightarrow> int \<Rightarrow> int list \<Rightarrow> int list option" where
  "mul_inner xi ys i j carry rs =
     (if j < length ys \<or> carry \<noteq> 0 then
        (if i + j < length rs then
           (let cur = rs ! (i + j) + carry + xi * (if j < length ys then ys ! j else 0)
            in mul_inner xi ys i (Suc j) (cur sdiv BASE) (rs[i + j := cur smod BASE]))
         else None)
      else Some rs)"
  by pat_completeness auto
termination
  by (relation "measure (\<lambda>(xi, ys, i, j, carry, rs). length rs - (i + j))") auto

function mul_outer :: "int list \<Rightarrow> int list \<Rightarrow> nat \<Rightarrow> int list \<Rightarrow> int list option" where
  "mul_outer xs ys i rs =
     (if i < length xs then
        (case mul_inner (xs ! i) ys i 0 0 rs of
           None \<Rightarrow> None
         | Some rs' \<Rightarrow> mul_outer xs ys (Suc i) rs')
      else Some rs)"
  by pat_completeness auto
termination
  by (relation "measure (\<lambda>(xs, ys, i, rs). length xs - i)") auto

definition mul_simple :: "int2048 \<Rightarrow> int2048 \<Rightarrow> int2048 option" where
  "mul_simple x y =
     (if is_zero x \<or> is_zero y then Some zero_int2048
      else (case mul_outer (a x) (a y) 0 (replicate (length (a x) + length (a y)) 0) of
              None \<Rightarrow> None
            | Some rs \<Rightarrow> Some ((trim \<lparr>a = rs, neg = False\<rparr>)\<lparr>neg := False\<rparr>)))"

definition mul_fft :: "int2048 \<Rightarrow> int2048 \<Rightarrow> int2048 option" where
  "mul_fft x y = mul_simple x y"

function mul_by_int_loop :: "int list \<Rightarrow> int \<Rightarrow> nat \<Rightarrow> int \<Rightarrow> int list \<Rightarrow> int list \<times> int" where
  "mul_by_int_loop xs m i carry rs =
     (if i < length xs then
        (let cur = 1 * xs ! i * m + carry
         in mul_by_int_loop xs m (Suc i) (cur sdiv BASE) (rs[i := cur smod BASE]))
      else (rs, carry))"
  by pat_completeness auto
termination
  by (relation "measure (\<lambda>(xs, m, i, carry, rs). length xs - i)") auto

definition mul_by_int :: "int2048 \<Rightarrow> int \<Rightarrow> int2048" where
  "mul_by_int x m =
     (if is_zero x \<or> m = 0 then zero_int2048
      else (let (rs, carry) = mul_by_int_loop (a x) m 0 0 (replicate (length (a x)) 0)
            in \<lparr>a = (if carry \<noteq> 0 then rs @ [carry] else rs), neg = False\<rparr>))"

subsection \<open>Division of magnitudes\<close>

text \<open>
  The binary search of one quotient digit: \<open>low\<close>, \<open>high\<close> and \<open>best\<close> are the
  loop's variables, \<open>(low + high) >> 1\<close> is the halving of a non-negative sum.
\<close>

function search_digit :: "int2048 \<Rightarrow> int2048 \<Rightarrow> int \<Rightarrow> int \<Rightarrow> int \<Rightarrow> int" where
  "search_digit vshift rem low high best =
     (if low \<le> high then
        (let mid = (low + high) div 2;
             t = mul_by_int vshift mid;
             cmp = abs_compare t rem
         in if cmp \<le> 0 then search_digit vshift rem (mid + 1) high mid
            else search_digit vshift rem low (mid - 1) best)
      else best)"
  by pat_completeness auto
termination
  by (relation "measure (\<lambda>(vshift, rem, low, high, best). nat (high - low + 1))") auto

text \<open>
  The body of \<open>for (pos = k; pos >= 0; --pos)\<close>: it takes and returns the three
  objects the loop changes, the shifted divisor, the running remainder and the
  quotient, and also returns the digit it has found.
\<close>

definition divmod_body :: "nat \<Rightarrow> int2048 \<Rightarrow> int2048 \<Rightarrow> int2048 \<Rightarrow> int \<times> int2048 \<times> int2048 \<times> int2048" where
  "divmod_body pos vshift rem q =
     (let best = search_digit vshift rem 0 (BASE - 1) 0;
          rem' = (if best \<noteq> 0 then sub_abs rem (mul_by_int vshift best) else rem);
          q' = q\<lparr>a := (a q)[pos := best]\<rparr>;
          vshift' = trim (if a vshift \<noteq> [] then vshift\<lparr>a := tl (a vshift)\<rparr> else vshift)
      in (best, vshift', rem', q'))"

text \<open>As in \<open>abs_compare_loop\<close>, the argument \<open>Suc pos\<close> stands for the index \<open>pos\<close>.\<close>

fun divmod_loop :: "nat \<Rightarrow> int2048 \<Rightarrow> int2048 \<Rightarrow> int2048 \<Rightarrow> int2048 \<times> int2048" where
  "divmod_loop 0 vshift rem q = (rem, q)"
| "divmod_loop (Suc pos) vshift rem q =
     (case divmod_body pos vshift rem q of
        (best, vshift', rem', q') \<Rightarrow> divmod_loop pos vshift' rem' q')"

text \<open>
  The record of a run of the loop: for every pass, the position, the shifted divisor
  and the running remainder it starts from, the digit it finds and the running
  remainder it leaves.  It runs the same body in the same order as \<open>divmod_loop\<close>.
\<close>

fun divmod_states ::
  "nat \<Rightarrow> int2048 \<Rightarrow> int2048 \<Rightarrow> int2048 \<Rightarrow> (nat \<times> int2048 \<times> int2048 \<times> int \<times> int2048) list" where
  "divmod_states 0 vshift rem q = []"
| "divmod_states (Suc pos) vshift rem q =
     (case divmod_body pos vshift rem q of
        (best, vshift', rem', q') \<Rightarrow>
          (pos, vshift, rem, best, rem') # divmod_states pos vshift' rem' q')"

text \<open>
  \<open>divmod_abs\<close> returns the pair \<open>(q, r)\<close> of its two reference parameters.  After
  \<open>u.abs_compare(v) < 0\<close> has failed, \<open>u\<close> is at least as long as \<open>v\<close>, so the
  difference \<open>k\<close> of the sizes is a natural number.
\<close>

definition divmod_abs :: "int2048 \<Rightarrow> int2048 \<Rightarrow> int2048 \<times> int2048" where
  "divmod_abs u v =
     (let q = of_ll 0; r = of_ll 0 in
      if is_zero v then (q, r)
      else if abs_compare u v < 0 then (q, u)
      else
        (let n = length (a u); m = length (a v); k = n - m;
             vshift = (if k > 0 then v\<lparr>a := replicate k 0 @ a v\<rparr> else v);
             q0 = q\<lparr>a := replicate (k + 1) 0\<rparr>;
             (rem, q1) = divmod_loop (Suc k) vshift u q0
         in (trim q1, rem\<lparr>neg := False\<rparr>)))"

subsection \<open>Operators\<close>

text \<open>\<open>operator-() const\<close>\<close>

definition uminus_op :: "int2048 \<Rightarrow> int2048" where
  "uminus_op x = (if \<not> is_zero x then x\<lparr>neg := \<not> neg x\<rparr> else x)"

text \<open>\<open>operator*=\<close> and \<open>operator*\<close>\<close>

definition mul_op :: "int2048 \<Rightarrow> int2048 \<Rightarrow> int2048 option" where
  "mul_op x b =
     (let sign = (neg x \<noteq> neg b) in
      case mul_fft (x\<lparr>neg := False\<rparr>) (b\<lparr>neg := False\<rparr>) of
        None \<Rightarrow> None
      | Some r \<Rightarrow> Some (r\<lparr>neg := sign \<and> \<not> is_zero r\<rparr>))"

text \<open>\<open>operator/=\<close> and \<open>operator/\<close>\<close>

definition div_op :: "int2048 \<Rightarrow> int2048 \<Rightarrow> int2048" where
  "div_op x b =
     (let neg_res = (neg x \<noteq> neg b);
          (qa, ra) = divmod_abs (x\<lparr>neg := False\<rparr>) (b\<lparr>neg := False\<rparr>)
      in if neg_res \<and> \<not> is_zero ra then (add_abs qa (of_ll 1))\<lparr>neg := True\<rparr>
         else qa\<lparr>neg := neg_res \<and> \<not> is_zero qa\<rparr>)"

text \<open>
  \<open>operator%=\<close> and \<open>operator%\<close>.  In the first and the third branch the source
  assigns the result of \<open>add_abs\<close> or \<open>sub_abs\<close> to \<open>*this\<close> and then executes
  \<open>this->neg = this->neg\<close>, which changes nothing: the flag is the one of the
  assigned magnitude.  The local \<open>prod\<close> of the source is \<open>prd\<close> here.
\<close>

definition mod_op :: "int2048 \<Rightarrow> int2048 \<Rightarrow> int2048 option" where
  "mod_op x b =
     (let q = div_op x b in
      case mul_op q b of
        None \<Rightarrow> None
      | Some prd \<Rightarrow>
          Some (if neg x \<noteq> neg prd then (let r = add_abs x prd in r\<lparr>neg := neg r\<rparr>)
                else (let cmp = abs_compare x prd in
                      if cmp = 0 then x\<lparr>a := [], neg := False\<rparr>
                      else if cmp > 0 then (let r = sub_abs x prd in r\<lparr>neg := neg r\<rparr>)
                      else (sub_abs prd x)\<lparr>neg := \<not> neg prd\<rparr>)))"

text \<open>The copy constructor and \<open>operator=\<close>: both copy the two fields.\<close>

definition copy_int2048 :: "int2048 \<Rightarrow> int2048" where
  "copy_int2048 o' = \<lparr>a = a o', neg = neg o'\<rparr>"

text \<open>\<open>operator==\<close>\<close>

definition eq_op :: "int2048 \<Rightarrow> int2048 \<Rightarrow> bool" where
  "eq_op x y = (neg x = neg y \<and> a x = a y)"

subsection \<open>Reading and printing\<close>

text \<open>
  \<open>read\<close>.  The indices \<open>i\<close>, \<open>end\<close>, \<open>p\<close>, \<open>l\<close> and \<open>t\<close> are \<open>int\<close> variables of
  the source and integers here (\<open>end\<close> can reach \<open>- 1\<close>); \<open>end\<close> is \<open>endi\<close>, since the
  name is a keyword.  Every read \<open>s[j]\<close> is guarded by \<open>0 \<le> j < n\<close> in the source.
\<close>

definition is_space :: "char \<Rightarrow> bool" where
  "is_space c = (c = CHR '' '' \<or> c = CHR 0x0A \<or> c = CHR 0x0D \<or> c = CHR 0x09
                 \<or> c = CHR 0x0B \<or> c = CHR 0x0C)"

definition is_digit :: "char \<Rightarrow> bool" where
  "is_digit c = ((48 :: nat) \<le> of_char c \<and> of_char c \<le> (57 :: nat))"

function skip_space :: "string \<Rightarrow> int \<Rightarrow> int \<Rightarrow> int" where
  "skip_space s n i = (if i < n \<and> is_space (s ! nat i) then skip_space s n (i + 1) else i)"
  by pat_completeness auto
termination
  by (relation "measure (\<lambda>(s, n, i). nat (n - i))") auto

function last_digit :: "string \<Rightarrow> int \<Rightarrow> int \<Rightarrow> int" where
  "last_digit s i endi =
     (if endi \<ge> i \<and> \<not> is_digit (s ! nat endi) then last_digit s i (endi - 1) else endi)"
  by pat_completeness auto
termination
  by (relation "measure (\<lambda>(s, i, endi). nat (endi - i + 1))") auto

text \<open>\<open>for (t = l; t <= p; ++t) if (s[t] is a digit) val = val * 10 + (s[t] - '0');\<close>\<close>

function read_block :: "string \<Rightarrow> int \<Rightarrow> int \<Rightarrow> int \<Rightarrow> int" where
  "read_block s t p val =
     (if t \<le> p then
        read_block s (t + 1) p
          (if is_digit (s ! nat t) then val * 10 + (of_char (s ! nat t) - 48) else val)
      else val)"
  by pat_completeness auto
termination
  by (relation "measure (\<lambda>(s, t, p, val). nat (p - t + 1))") auto

text \<open>\<open>for (p = end; p >= i; p -= BASE_DIGS) { ...; a.push_back(val); }\<close>\<close>

function read_blocks :: "string \<Rightarrow> int \<Rightarrow> int \<Rightarrow> int list \<Rightarrow> int list" where
  "read_blocks s i p ds =
     (if p \<ge> i then
        (let l0 = p - (BASE_DIGS - 1);
             l = (if l0 < i then i else l0);
             val = read_block s l p 0
         in read_blocks s i (p - BASE_DIGS) (ds @ [val]))
      else ds)"
  by pat_completeness auto
termination
  by (relation "measure (\<lambda>(s, i, p, ds). nat (p - i + 1))") (auto simp: BASE_DIGS_def)

definition read :: "string \<Rightarrow> int2048" where
  "read s =
     (let n = int (length s);
          i0 = skip_space s n 0;
          (ng, i) = (if i0 < n \<and> (s ! nat i0 = CHR ''+'' \<or> s ! nat i0 = CHR ''-'')
                     then (s ! nat i0 = CHR ''-'', i0 + 1) else (False, i0));
          endi = last_digit s i (n - 1)
      in if endi < i then \<lparr>a = [], neg = False\<rparr>
         else (let r = trim \<lparr>a = read_blocks s i endi [], neg = ng\<rparr>
               in if is_zero r then r\<lparr>neg := False\<rparr> else r))"

text \<open>
  Output is the string of the characters written.  \<open>show_int\<close> is the insertion of an
  \<open>int\<close> into a C++ stream with the default flags: the decimal digits, after a minus
  sign for a negative number.
\<close>

function show_nat :: "nat \<Rightarrow> string" where
  "show_nat n =
     (if n < 10 then [char_of (48 + n)] else show_nat (n div 10) @ [char_of (48 + n mod 10)])"
  by pat_completeness auto
termination
  by (relation "measure id") auto

definition show_int :: "int \<Rightarrow> string" where
  "show_int v = (if v < 0 then CHR ''-'' # show_nat (nat (- v)) else show_nat (nat v))"

text \<open>
  \<open>print\<close>: after the top block, the loop \<open>for (--i; i >= 0; --i)\<close> writes the four
  numbers \<open>v / 1000\<close>, \<open>(v / 100) % 10\<close>, \<open>(v / 10) % 10\<close> and \<open>v % 10\<close> of each block.
\<close>

fun print_loop :: "int list \<Rightarrow> nat \<Rightarrow> string \<Rightarrow> string" where
  "print_loop ds 0 out = out"
| "print_loop ds (Suc i) out =
     (let v = ds ! i
      in print_loop ds i
           (out @ show_int (v sdiv 1000) @ show_int ((v sdiv 100) smod 10)
                @ show_int ((v sdiv 10) smod 10) @ show_int (v smod 10)))"

definition print :: "int2048 \<Rightarrow> string" where
  "print x =
     (if is_zero x then show_int 0
      else (let out0 = (if neg x then [CHR ''-''] else []);
                i = length (a x) - 1;
                out1 = out0 @ show_int (a x ! i)
            in print_loop (a x) i out1))"

text \<open>
  \<open>operator<<\<close>: each lower block fills \<open>buf[3]\<close> down to \<open>buf[0]\<close> with
  \<open>char('0' + v % 10)\<close>, dividing \<open>v\<close> by ten each time, and writes \<open>buf\<close> as a C
  string, that is up to the first zero byte.
\<close>

fun fill_buf :: "nat \<Rightarrow> int \<Rightarrow> char list \<Rightarrow> char list" where
  "fill_buf 0 v buf = buf"
| "fill_buf (Suc k) v buf = fill_buf k (v sdiv 10) (buf[k := char_of (48 + v smod 10)])"

fun shift_out_loop :: "int list \<Rightarrow> nat \<Rightarrow> string \<Rightarrow> string" where
  "shift_out_loop ds 0 out = out"
| "shift_out_loop ds (Suc i) out =
     (let v = ds ! i;
          buf = fill_buf 4 v (replicate 4 (CHR 0x00))
      in shift_out_loop ds i (out @ takeWhile (\<lambda>c. c \<noteq> CHR 0x00) buf))"

definition shift_out :: "int2048 \<Rightarrow> string" where
  "shift_out x =
     (if is_zero x then show_int 0
      else (let out0 = (if neg x then [CHR ''-''] else []);
                i = length (a x) - 1;
                out1 = out0 @ show_int (a x ! i)
            in shift_out_loop (a x) i out1))"

section \<open>What a digit vector stands for\<close>

text \<open>
  The number a little-endian vector of blocks denotes, and the number an object
  denotes: the magnitude, negated when the flag is set.
\<close>

fun mag :: "int list \<Rightarrow> int" where
  "mag [] = 0"
| "mag (d # ds) = d + BASE * mag ds"

definition value_of :: "int2048 \<Rightarrow> int" where
  "value_of x = (if neg x then - mag (a x) else mag (a x))"

text \<open>Every block lies in \<open>[0, BASE)\<close>.\<close>

definition digits_ok :: "int list \<Rightarrow> bool" where
  "digits_ok ds = list_all (\<lambda>d. 0 \<le> d \<and> d < BASE) ds"

text \<open>
  Canonical form: the most-significant block, if there is one, is not zero, and an
  object without blocks is not negative.
\<close>

definition canonical :: "int2048 \<Rightarrow> bool" where
  "canonical x = ((a x = [] \<or> last (a x) \<noteq> 0) \<and> (a x = [] \<longrightarrow> \<not> neg x))"

definition wf_int2048 :: "int2048 \<Rightarrow> bool" where
  "wf_int2048 x = (digits_ok (a x) \<and> canonical x)"

text \<open>The block at an index, zero beyond the end: the operand of one column.\<close>

definition dg :: "int list \<Rightarrow> nat \<Rightarrow> int" where
  "dg xs i = (if i < length xs then xs ! i else 0)"

section \<open>The number the specification reads from a string\<close>

text \<open>
  The parsing rule in the specification's words, on the string as a list: skip the
  leading whitespace, take off one leading sign, set aside the characters after the
  last digit, and take the longest run of digits that ends there; its decimal value is
  the magnitude.  These definitions do not follow the index loops of \<open>read\<close>; they
  are what \<open>read\<close> is compared with.  The last one, \<open>blocks_value\<close>, is the
  exception: it restates the loops on lists.
\<close>

definition dec_value :: "string \<Rightarrow> int" where
  "dec_value cs = foldl (\<lambda>v c. v * 10 + (of_char c - 48)) 0 cs"

definition spec_minus :: "string \<Rightarrow> bool" where
  "spec_minus s = (case dropWhile is_space s of [] \<Rightarrow> False | c # r \<Rightarrow> c = CHR ''-'')"

definition spec_body :: "string \<Rightarrow> string" where
  "spec_body s =
     (case dropWhile is_space s of
        [] \<Rightarrow> []
      | c # r \<Rightarrow> if c = CHR ''+'' \<or> c = CHR ''-'' then r else c # r)"

definition up_to_last_digit :: "string \<Rightarrow> string" where
  "up_to_last_digit t = rev (dropWhile (\<lambda>c. \<not> is_digit c) (rev t))"

definition trailing_digit_run :: "string \<Rightarrow> string" where
  "trailing_digit_run t = rev (takeWhile is_digit (rev (up_to_last_digit t)))"

text \<open>
  What stands before that run, so that \<open>up_to_last_digit t\<close> is
  \<open>before_digit_run t @ trailing_digit_run t\<close>.
\<close>

definition before_digit_run :: "string \<Rightarrow> string" where
  "before_digit_run t = rev (dropWhile is_digit (rev (up_to_last_digit t)))"

text \<open>The characters of \<open>s\<close> at the indices \<open>t\<close> to \<open>p\<close>, both included.\<close>

definition segi :: "string \<Rightarrow> int \<Rightarrow> int \<Rightarrow> string" where
  "segi s t p = take (nat (p - t + 1)) (drop (nat t) s)"

text \<open>
  The number that the two loops of \<open>read\<close> take from a segment of the string, on the
  segment as a list: the last four characters give the lowest block, which is the
  decimal value of the digits among them (the inner loop passes over the other
  characters), and the characters before them give the higher blocks in the same way.
  Lemma \<open>read_blocks_mag\<close> below proves that the loops compute this number.
\<close>

function blocks_value :: "string \<Rightarrow> int" where
  "blocks_value cs =
     (if cs = [] then 0
      else dec_value (filter is_digit (drop (length cs - 4) cs))
           + BASE * blocks_value (take (length cs - 4) cs))"
  by pat_completeness auto
termination
  by (relation "measure length") auto

section \<open>The rendering the specification describes\<close>

text \<open>
  The formatting boundary in the specification's words: \<open>0\<close> for zero, a leading
  \<open>-\<close> for a negative value, the most-significant block unpadded, then every lower
  block zero-padded to exactly four decimal digits.  It is written without reference
  to the two loops of the source, to be compared with them.
\<close>

definition pad4 :: "nat \<Rightarrow> string" where
  "pad4 n = replicate (4 - length (show_nat n)) (CHR ''0'') @ show_nat n"

definition format_spec :: "int2048 \<Rightarrow> string" where
  "format_spec x =
     (if a x = [] then ''0''
      else (if neg x then ''-'' else []) @ show_nat (nat (last (a x)))
           @ concat (map (\<lambda>v. pad4 (nat v)) (rev (butlast (a x)))))"

text \<open>
  What one pass of each of the two output loops appends for a lower block \<open>v\<close>: the
  four insertions of \<open>print\<close>, and the buffer of \<open>operator<<\<close>.
\<close>

definition print_block :: "int \<Rightarrow> string" where
  "print_block v = show_int (v sdiv 1000) @ show_int ((v sdiv 100) smod 10)
                   @ show_int ((v sdiv 10) smod 10) @ show_int (v smod 10)"

definition buf_block :: "int \<Rightarrow> string" where
  "buf_block v = takeWhile (\<lambda>c. c \<noteq> CHR 0x00) (fill_buf 4 v (replicate 4 (CHR 0x00)))"

section \<open>Lemmas about the operations\<close>

subsection \<open>Blocks and magnitudes\<close>

lemma BASE_pos: "0 < BASE" by (simp add: BASE_def)

lemma sdiv_nonneg: "0 \<le> x \<Longrightarrow> x sdiv BASE = x div BASE"
  by (simp add: signed_divide_int_def BASE_def sgn_if)

lemma smod_nonneg: "0 \<le> x \<Longrightarrow> x smod BASE = x mod BASE"
  by (simp add: signed_modulo_int_def BASE_def sgn_if)

lemma digits_ok_Nil [simp]: "digits_ok []" by (simp add: digits_ok_def)
lemma digits_ok_Cons [simp]: "digits_ok (d # ds) = (0 \<le> d \<and> d < BASE \<and> digits_ok ds)"
  by (simp add: digits_ok_def)
lemma digits_ok_append [simp]: "digits_ok (xs @ ys) = (digits_ok xs \<and> digits_ok ys)"
  by (simp add: digits_ok_def)
lemma digits_ok_nth: "digits_ok ds \<Longrightarrow> i < length ds \<Longrightarrow> 0 \<le> ds ! i \<and> ds ! i < BASE"
  by (simp add: digits_ok_def list_all_length)
lemma digits_ok_replicate [simp]: "digits_ok (replicate n 0)"
  by (simp add: digits_ok_def list_all_length BASE_def)
lemma digits_ok_update: "digits_ok ds \<Longrightarrow> 0 \<le> d \<Longrightarrow> d < BASE \<Longrightarrow> digits_ok (ds[i := d])"
  using set_update_subset_insert[of ds i d] by (auto simp: digits_ok_def list_all_iff)
lemma digits_ok_take: "digits_ok ds \<Longrightarrow> digits_ok (take n ds)"
  by (auto simp: digits_ok_def list_all_length)
lemma digits_ok_drop: "digits_ok ds \<Longrightarrow> digits_ok (drop n ds)"
  by (auto simp: digits_ok_def list_all_length)
lemma digits_ok_butlast: "digits_ok ds \<Longrightarrow> digits_ok (butlast ds)"
  by (simp add: butlast_conv_take digits_ok_take)
lemma digits_ok_tl: "digits_ok ds \<Longrightarrow> digits_ok (tl ds)"
  by (cases ds) auto

lemma mag_append: "mag (xs @ ys) = mag xs + BASE ^ length xs * mag ys"
  by (induction xs) (auto simp: algebra_simps)

lemma mag_replicate0 [simp]: "mag (replicate n 0) = 0"
  by (induction n) auto

lemma mag_nonneg: "digits_ok ds \<Longrightarrow> 0 \<le> mag ds"
  using BASE_pos by (induction ds) auto

lemma mag_less: "digits_ok ds \<Longrightarrow> mag ds < BASE ^ length ds"
proof (induction ds)
  case Nil then show ?case by simp
next
  case (Cons d ds)
  then have "mag ds + 1 \<le> BASE ^ length ds" and "d < BASE" by auto
  then have "BASE * (mag ds + 1) \<le> BASE * BASE ^ length ds"
    using BASE_pos by (simp add: mult_left_mono)
  with \<open>d < BASE\<close> show ?case by (simp add: algebra_simps)
qed

lemma mag_take_Suc: "i < length ds \<Longrightarrow> mag (take (Suc i) ds) = mag (take i ds) + BASE ^ i * ds ! i"
  by (simp add: take_Suc_conv_app_nth mag_append)

lemma mag_ge_last: "digits_ok ds \<Longrightarrow> ds \<noteq> [] \<Longrightarrow> BASE ^ (length ds - 1) * last ds \<le> mag ds"
proof -
  assume ok: "digits_ok ds" and ne: "ds \<noteq> []"
  then have "ds = butlast ds @ [last ds]" by simp
  then have "mag ds = mag (butlast ds) + BASE ^ (length ds - 1) * last ds"
    by (metis mag_append length_butlast mag.simps add.right_neutral mult_zero_right)
  moreover have "0 \<le> mag (butlast ds)" using ok by (simp add: mag_nonneg digits_ok_butlast)
  ultimately show ?thesis by simp
qed

lemma mag_lower: "digits_ok ds \<Longrightarrow> ds \<noteq> [] \<Longrightarrow> last ds \<noteq> 0 \<Longrightarrow> BASE ^ (length ds - 1) \<le> mag ds"
proof -
  assume ok: "digits_ok ds" and ne: "ds \<noteq> []" and l: "last ds \<noteq> 0"
  have "last ds \<in> set ds" using ne by simp
  then have "0 \<le> last ds" using ok by (auto simp: digits_ok_def list_all_iff)
  with l have "1 \<le> last ds" by simp
  then have "BASE ^ (length ds - 1) * 1 \<le> BASE ^ (length ds - 1) * last ds"
    using BASE_pos by (intro mult_left_mono) auto
  with mag_ge_last[OF ok ne] show ?thesis by simp
qed

lemma mag_eq_0_iff: "digits_ok ds \<Longrightarrow> (mag ds = 0) = (ds = replicate (length ds) 0)"
proof (induction ds)
  case Nil then show ?case by simp
next
  case (Cons d ds)
  then have ok: "digits_ok ds" and d: "0 \<le> d" "d < BASE" by auto
  have nn: "0 \<le> mag ds" using ok by (rule mag_nonneg)
  have "(d + BASE * mag ds = 0) = (d = 0 \<and> mag ds = 0)"
  proof
    assume e: "d + BASE * mag ds = 0"
    have "0 \<le> BASE * mag ds" using nn BASE_pos by simp
    with e d have "d = 0" and "BASE * mag ds = 0" by linarith+
    moreover have "BASE \<noteq> 0" using BASE_pos by simp
    ultimately show "d = 0 \<and> mag ds = 0" by simp
  qed simp
  with Cons.IH[OF ok] show ?case by simp
qed

lemma mag_inj: "length xs = length ys \<Longrightarrow> digits_ok xs \<Longrightarrow> digits_ok ys \<Longrightarrow> mag xs = mag ys \<Longrightarrow> xs = ys"
proof (induction xs ys rule: list_induct2)
  case Nil then show ?case by simp
next
  case (Cons x xs y ys)
  then have x: "0 \<le> x" "x < BASE" and y: "0 \<le> y" "y < BASE" by auto
  from Cons.prems have e: "x + BASE * mag xs = y + BASE * mag ys" by simp
  then have "(x + BASE * mag xs) mod BASE = (y + BASE * mag ys) mod BASE" by simp
  then have xy: "x = y" using x y by simp
  with e have "mag xs = mag ys" using BASE_pos by simp
  with Cons xy show ?case by simp
qed

subsection \<open>Trimming and the comparison of magnitudes\<close>

declare trim_loop.simps [simp del]

lemma trim_loop_mag: "mag (trim_loop ds) = mag ds"
proof (induction ds rule: trim_loop.induct)
  case (1 ds)
  show ?case
  proof (cases "ds \<noteq> [] \<and> last ds = 0")
    case True
    then have "ds = butlast ds @ [0]" by (metis append_butlast_last_id)
    then have "mag ds = mag (butlast ds)" by (metis mag_append mag.simps add.right_neutral mult_zero_right)
    with 1 True show ?thesis by (subst trim_loop.simps) simp
  next
    case False
    then show ?thesis by (subst trim_loop.simps) auto
  qed
qed

lemma trim_loop_ok: "digits_ok ds \<Longrightarrow> digits_ok (trim_loop ds)"
proof (induction ds rule: trim_loop.induct)
  case (1 ds)
  show ?case
  proof (cases "ds \<noteq> [] \<and> last ds = 0")
    case True
    with 1 show ?thesis by (subst trim_loop.simps) (simp add: digits_ok_butlast)
  next
    case False
    with 1 show ?thesis by (subst trim_loop.simps) auto
  qed
qed

lemma trim_loop_last: "trim_loop ds = [] \<or> last (trim_loop ds) \<noteq> 0"
proof (induction ds rule: trim_loop.induct)
  case (1 ds)
  show ?case
  proof (cases "ds \<noteq> [] \<and> last ds = 0")
    case True
    with 1 show ?thesis by (subst (1 2) trim_loop.simps) simp
  next
    case False
    then show ?thesis by (subst (1 2) trim_loop.simps) auto
  qed
qed

lemma trim_loop_id: "ds = [] \<or> last ds \<noteq> 0 \<Longrightarrow> trim_loop ds = ds"
  by (subst trim_loop.simps) auto

lemma trim_loop_length: "length (trim_loop ds) \<le> length ds"
proof (induction ds rule: trim_loop.induct)
  case (1 ds)
  show ?case
  proof (cases "ds \<noteq> [] \<and> last ds = 0")
    case True
    with 1 have "length (trim_loop (butlast ds)) \<le> length (butlast ds)" by simp
    with True show ?thesis by (subst trim_loop.simps) simp
  next
    case False
    then show ?thesis by (subst trim_loop.simps) auto
  qed
qed

lemma trim_a: "a (trim x) = trim_loop (a x)"
  by (simp add: trim_def Let_def)

lemma trim_canonical: "canonical (trim x)"
  using trim_loop_last[of "a x"] by (auto simp: trim_def Let_def canonical_def)

lemma trim_wf: "digits_ok (a x) \<Longrightarrow> wf_int2048 (trim x)"
  by (simp add: wf_int2048_def trim_canonical trim_a trim_loop_ok)

lemma trim_id: "canonical x \<Longrightarrow> trim x = x"
  by (auto simp: trim_def Let_def canonical_def trim_loop_id)

lemma wf_zero: "wf_int2048 zero_int2048"
  by (simp add: wf_int2048_def canonical_def zero_int2048_def)

lemma wf_mag_lower: "wf_int2048 x \<Longrightarrow> a x \<noteq> [] \<Longrightarrow> BASE ^ (length (a x) - 1) \<le> mag (a x)"
  using mag_lower[of "a x"] by (auto simp: wf_int2048_def canonical_def)

lemma wf_mag_pos: "wf_int2048 x \<Longrightarrow> a x \<noteq> [] \<Longrightarrow> 0 < mag (a x)"
proof -
  assume w: "wf_int2048 x" and ne: "a x \<noteq> []"
  have "0 < BASE ^ (length (a x) - 1)" using BASE_pos by simp
  with wf_mag_lower[OF w ne] show ?thesis by linarith
qed

lemma wf_mag_0: "wf_int2048 x \<Longrightarrow> (mag (a x) = 0) = (a x = [])"
proof
  assume w: "wf_int2048 x" and z: "mag (a x) = 0"
  show "a x = []"
  proof (rule ccontr)
    assume "a x \<noteq> []"
    from wf_mag_pos[OF w this] z show False by simp
  qed
next
  assume "a x = []"
  then show "mag (a x) = 0" by simp
qed

text \<open>Two well-formed vectors with the same magnitude are the same vector.\<close>

lemma wf_length_le: 
  assumes "wf_int2048 x" "wf_int2048 y" "mag (a x) \<le> mag (a y)"
  shows "length (a x) \<le> length (a y)"
proof (rule ccontr)
  assume "\<not> length (a x) \<le> length (a y)"
  then have lt: "length (a y) < length (a x)" by simp
  then have ne: "a x \<noteq> []" by auto
  have "mag (a y) < BASE ^ length (a y)" using assms(2) by (simp add: wf_int2048_def mag_less)
  also have "\<dots> \<le> BASE ^ (length (a x) - 1)"
    using lt BASE_pos by (intro power_increasing) auto
  also have "\<dots> \<le> mag (a x)" using wf_mag_lower[OF assms(1) ne] .
  finally show False using assms(3) by simp
qed

lemma wf_mag_inj:
  assumes "wf_int2048 x" "wf_int2048 y" "mag (a x) = mag (a y)"
  shows "a x = a y"
proof -
  have "length (a x) = length (a y)"
    using wf_length_le[OF assms(1,2)] wf_length_le[OF assms(2,1)] assms(3) by simp
  then show ?thesis using assms by (auto simp: wf_int2048_def intro: mag_inj)
qed

lemma abs_compare_loop_mag:
  "i \<le> length xs \<Longrightarrow> length xs = length ys \<Longrightarrow> digits_ok xs \<Longrightarrow> digits_ok ys \<Longrightarrow>
   abs_compare_loop xs ys i =
     (if mag (take i xs) < mag (take i ys) then - 1 else if mag (take i xs) = mag (take i ys) then 0 else 1)"
proof (induction i)
  case 0
  then show ?case by simp
next
  case (Suc i)
  then have i: "i < length xs" "i < length ys" by auto
  have bx: "0 \<le> mag (take i xs)" "mag (take i xs) < BASE ^ i"
    using mag_nonneg[of "take i xs"] mag_less[of "take i xs"] Suc.prems i by (auto simp: digits_ok_take)
  have by': "0 \<le> mag (take i ys)" "mag (take i ys) < BASE ^ i"
    using mag_nonneg[of "take i ys"] mag_less[of "take i ys"] Suc.prems i by (auto simp: digits_ok_take)
  have ex: "mag (take (Suc i) xs) = mag (take i xs) + BASE ^ i * xs ! i"
    and ey: "mag (take (Suc i) ys) = mag (take i ys) + BASE ^ i * ys ! i"
    using i by (simp_all add: mag_take_Suc)
  have P: "0 < BASE ^ i" using BASE_pos by simp
  consider (lt) "xs ! i < ys ! i" | (eq) "xs ! i = ys ! i" | (gt) "xs ! i > ys ! i" by linarith
  then show ?case
  proof cases
    case lt
    then have "BASE ^ i * (xs ! i + 1) \<le> BASE ^ i * ys ! i"
      using P by (intro mult_left_mono) auto
    then have "mag (take (Suc i) xs) < mag (take (Suc i) ys)"
      using bx by' ex ey by (simp add: algebra_simps)
    with lt show ?thesis by simp
  next
    case eq
    with Suc ex ey show ?thesis by simp
  next
    case gt
    then have "BASE ^ i * (ys ! i + 1) \<le> BASE ^ i * xs ! i"
      using P by (intro mult_left_mono) auto
    then have "mag (take (Suc i) ys) < mag (take (Suc i) xs)"
      using bx by' ex ey by (simp add: algebra_simps)
    with gt show ?thesis by simp
  qed
qed

lemma abs_compare_mag:
  assumes "wf_int2048 x" "wf_int2048 y"
  shows "abs_compare x y =
     (if mag (a x) < mag (a y) then - 1 else if mag (a x) = mag (a y) then 0 else 1)"
proof (cases "length (a x) = length (a y)")
  case True
  then show ?thesis
    using abs_compare_loop_mag[of "length (a x)" "a x" "a y"] assms
    by (simp add: abs_compare_def wf_int2048_def)
next
  case False
  show ?thesis
  proof (cases "length (a x) < length (a y)")
    case True
    then have "\<not> mag (a y) \<le> mag (a x)" using wf_length_le[OF assms(2,1)] by auto
    with True False show ?thesis by (simp add: abs_compare_def)
  next
    case F: False
    with False have "length (a y) < length (a x)" by simp
    then have "\<not> mag (a x) \<le> mag (a y)" using wf_length_le[OF assms(1,2)] by auto
    with F False show ?thesis by (simp add: abs_compare_def)
  qed
qed

subsection \<open>The addition loop\<close>

declare add_abs_loop.simps [simp del] sub_abs_loop.simps [simp del] mul_by_int_loop.simps [simp del]

lemma mag_drop: "mag (drop i xs) = dg xs i + BASE * mag (drop (Suc i) xs)"
proof (cases "i < length xs")
  case True
  then have "drop i xs = xs ! i # drop (Suc i) xs" by (simp add: Cons_nth_drop_Suc)
  then show ?thesis using True by (simp add: dg_def)
next
  case False
  then show ?thesis by (simp add: dg_def)
qed

lemma dg_range: "digits_ok xs \<Longrightarrow> 0 \<le> dg xs i \<and> dg xs i < BASE"
  using digits_ok_nth[of xs i] BASE_pos by (auto simp: dg_def)

lemma mag_take_update: "i < length rs \<Longrightarrow> mag (take (Suc i) (rs[i := d])) = mag (take i rs) + BASE ^ i * d"
  by (simp add: mag_take_Suc)

lemma last_nonzero_of_mag:
  assumes "digits_ok ds" "ds \<noteq> []" "BASE ^ (length ds - 1) \<le> mag ds"
  shows "last ds \<noteq> 0"
proof
  assume z: "last ds = 0"
  from assms(2) have "ds = butlast ds @ [last ds]" by simp
  then have "mag ds = mag (butlast ds) + BASE ^ (length ds - 1) * last ds"
    by (metis mag_append length_butlast mag.simps add.right_neutral mult_zero_right)
  with z have "mag ds = mag (butlast ds)" by simp
  moreover have "mag (butlast ds) < BASE ^ length (butlast ds)"
    using assms(1) by (intro mag_less digits_ok_butlast)
  ultimately show False using assms(3) by simp
qed

lemma add_abs_loop_step:
  "i < length rs \<Longrightarrow> add_abs_loop xs ys i carry rs =
     add_abs_loop xs ys (Suc i) ((carry + dg xs i + dg ys i) sdiv BASE)
       (rs[i := (carry + dg xs i + dg ys i) smod BASE])"
  by (subst add_abs_loop.simps) (simp add: dg_def Let_def)

lemma add_abs_loop_stop: "\<not> i < length rs \<Longrightarrow> add_abs_loop xs ys i carry rs = (rs, carry)"
  by (subst add_abs_loop.simps) simp

lemma add_abs_loop_inv:
  "digits_ok xs \<Longrightarrow> digits_ok ys \<Longrightarrow> digits_ok rs \<Longrightarrow> i \<le> length rs \<Longrightarrow>
   0 \<le> carry \<Longrightarrow> carry \<le> 1 \<Longrightarrow> add_abs_loop xs ys i carry rs = (rs', c') \<Longrightarrow>
   length rs' = length rs \<and> digits_ok rs' \<and> 0 \<le> c' \<and> c' \<le> 1 \<and>
   mag (take i rs) + BASE ^ i * (carry + mag (drop i xs) + mag (drop i ys))
     = mag rs' + BASE ^ length rs * c' + BASE ^ length rs * (mag (drop (length rs) xs) + mag (drop (length rs) ys))"
proof (induction k \<equiv> "length rs - i" arbitrary: i carry rs)
  case 0
  then have "i = length rs" by simp
  with 0 show ?case by (simp add: add_abs_loop_stop algebra_simps)
next
  case (Suc k)
  then have True: "i < length rs" by simp
  define cur where "cur = carry + dg xs i + dg ys i"
  have rx: "0 \<le> dg xs i" "dg xs i < BASE" and ry: "0 \<le> dg ys i" "dg ys i < BASE"
    using dg_range Suc.prems by auto
  have cur0: "0 \<le> cur" using rx ry Suc.prems by (simp add: cur_def)
  have curlt: "cur < 2 * BASE" using rx ry Suc.prems by (simp add: cur_def)
  have d: "cur smod BASE = cur mod BASE" "cur sdiv BASE = cur div BASE"
    using cur0 by (simp_all add: sdiv_nonneg smod_nonneg)
  have dr: "0 \<le> cur mod BASE" "cur mod BASE < BASE" using BASE_pos by simp_all
  have c0: "0 \<le> cur div BASE" using cur0 BASE_pos by (simp add: pos_imp_zdiv_nonneg_iff)
  have c1: "cur div BASE \<le> 1" using curlt BASE_pos by (simp add: BASE_def)
  have ok2: "digits_ok (rs[i := cur mod BASE])"
    using Suc.prems(3) dr by (rule digits_ok_update)
  have step: "add_abs_loop xs ys (Suc i) (cur div BASE) (rs[i := cur mod BASE]) = (rs', c')"
    using Suc.prems(7) True by (simp add: add_abs_loop_step cur_def[symmetric] d)
  have k: "k = length (rs[i := cur mod BASE]) - Suc i" using Suc.hyps(2) by simp
  have le: "Suc i \<le> length (rs[i := cur mod BASE])" using True by simp
  note IH = Suc.hyps(1)[OF k Suc.prems(1,2) ok2 le c0 c1 step]
  have "BASE ^ i * cur = BASE ^ i * (cur mod BASE + BASE * (cur div BASE))" by simp
  then have e: "BASE ^ i * cur = BASE ^ i * (cur mod BASE) + BASE ^ Suc i * (cur div BASE)"
    by (simp only: distrib_left power_Suc mult.assoc mult.left_commute)
  have "mag (take i rs) + BASE ^ i * (carry + mag (drop i xs) + mag (drop i ys))
      = mag (take i rs) + BASE ^ i * (cur + BASE * (mag (drop (Suc i) xs) + mag (drop (Suc i) ys)))"
    by (subst (1 2) mag_drop) (simp add: cur_def algebra_simps)
  also have "\<dots> = mag (take (Suc i) (rs[i := cur mod BASE])) + BASE ^ Suc i * (cur div BASE + mag (drop (Suc i) xs) + mag (drop (Suc i) ys))"
    using e by (simp add: mag_take_update[OF True] distrib_left)
  finally show ?case using IH by simp
qed

subsection \<open>The sum of two magnitudes\<close>

lemma add_abs_neg [simp]: "neg (add_abs x y) = False"
  by (simp add: add_abs_def split: prod.splits)

lemma add_abs_res:
  assumes "digits_ok (a x)" "digits_ok (a y)"
  shows "\<exists>rs' c'. a (add_abs x y) = (if c' \<noteq> 0 then rs' @ [c'] else rs')
           \<and> length rs' = max (length (a x)) (length (a y)) \<and> digits_ok rs' \<and> 0 \<le> c' \<and> c' \<le> 1
           \<and> mag (a x) + mag (a y) = mag rs' + BASE ^ length rs' * c'"
proof -
  define n where "n = max (length (a x)) (length (a y))"
  obtain rs' c' where r: "add_abs_loop (a x) (a y) 0 0 (replicate n 0) = (rs', c')"
    by (cases "add_abs_loop (a x) (a y) 0 0 (replicate n 0)")
  have inv: "length rs' = length (replicate n (0::int)) \<and> digits_ok rs' \<and> 0 \<le> c' \<and> c' \<le> 1 \<and>
     mag (take 0 (replicate n (0::int))) + BASE ^ 0 * (0 + mag (drop 0 (a x)) + mag (drop 0 (a y)))
     = mag rs' + BASE ^ length (replicate n (0::int)) * c'
       + BASE ^ length (replicate n (0::int)) * (mag (drop (length (replicate n (0::int))) (a x)) + mag (drop (length (replicate n (0::int))) (a y)))"
    by (rule add_abs_loop_inv[OF assms _ _ _ _ r]) simp_all
  then have len: "length rs' = n" and ok: "digits_ok rs'" and c: "0 \<le> c'" "c' \<le> 1"
    and e: "mag (a x) + mag (a y) = mag rs' + BASE ^ n * c'"
    by (simp_all add: n_def)
  have res: "a (add_abs x y) = (if c' \<noteq> 0 then rs' @ [c'] else rs')"
    using r by (simp add: add_abs_def n_def)
  show ?thesis
    using res len ok c e by (intro exI[of _ rs'] exI[of _ c']) (simp add: n_def)
qed

lemma add_abs_mag:
  assumes "digits_ok (a x)" "digits_ok (a y)"
  shows "mag (a (add_abs x y)) = mag (a x) + mag (a y)"
    and "digits_ok (a (add_abs x y))"
proof -
  obtain rs' c' where r: "a (add_abs x y) = (if c' \<noteq> 0 then rs' @ [c'] else rs')"
    "digits_ok rs'" "0 \<le> c'" "c' \<le> 1" "mag (a x) + mag (a y) = mag rs' + BASE ^ length rs' * c'"
    using add_abs_res[OF assms] by blast
  have "c' < BASE" using r(4) by (simp add: BASE_def)
  then show "mag (a (add_abs x y)) = mag (a x) + mag (a y)" and "digits_ok (a (add_abs x y))"
    using r by (auto simp: mag_append)
qed

lemma wf_max_lower:
  assumes "wf_int2048 x" "wf_int2048 y" "0 < max (length (a x)) (length (a y))"
  shows "BASE ^ (max (length (a x)) (length (a y)) - 1) \<le> mag (a x) + mag (a y)"
proof -
  have nx: "0 \<le> mag (a x)" and ny: "0 \<le> mag (a y)"
    using assms by (simp_all add: wf_int2048_def mag_nonneg)
  show ?thesis
  proof (cases "length (a x) \<le> length (a y)")
    case True
    with assms(3) have "a y \<noteq> []" by auto
    from wf_mag_lower[OF assms(2) this] True nx show ?thesis by (simp add: max_def)
  next
    case False
    with assms(3) have "a x \<noteq> []" by auto
    from wf_mag_lower[OF assms(1) this] False ny show ?thesis by (simp add: max_def)
  qed
qed

lemma add_abs_wf:
  assumes "wf_int2048 x" "wf_int2048 y"
  shows "wf_int2048 (add_abs x y)"
proof -
  have ox: "digits_ok (a x)" and oy: "digits_ok (a y)" using assms by (simp_all add: wf_int2048_def)
  obtain rs' c' where r: "a (add_abs x y) = (if c' \<noteq> 0 then rs' @ [c'] else rs')"
    "length rs' = max (length (a x)) (length (a y))"
    "digits_ok rs'" "0 \<le> c'" "c' \<le> 1" "mag (a x) + mag (a y) = mag rs' + BASE ^ length rs' * c'"
    using add_abs_res[OF ox oy] by blast
  let ?r = "a (add_abs x y)"
  have "?r = [] \<or> last ?r \<noteq> 0"
  proof (cases "c' = 0")
    case False
    with r(1) show ?thesis by simp
  next
    case True
    show ?thesis
    proof (cases "rs' = []")
      case True
      with \<open>c' = 0\<close> r(1) show ?thesis by simp
    next
      case False
      then have "0 < length rs'" by simp
      then have "0 < max (length (a x)) (length (a y))" using r(2) by simp
      from wf_max_lower[OF assms this] have "BASE ^ (length rs' - 1) \<le> mag rs'"
        using r(2,6) True by simp
      from last_nonzero_of_mag[OF r(3) False this] True r(1) show ?thesis by simp
    qed
  qed
  then show ?thesis using add_abs_mag(2)[OF ox oy] by (simp add: wf_int2048_def canonical_def)
qed

subsection \<open>The subtraction loop\<close>

lemma sub_abs_loop_step:
  "i < length xs \<Longrightarrow> sub_abs_loop xs ys i carry rs =
     (if xs ! i - carry - dg ys i < 0
      then sub_abs_loop xs ys (Suc i) 1 (rs[i := xs ! i - carry - dg ys i + BASE])
      else sub_abs_loop xs ys (Suc i) 0 (rs[i := xs ! i - carry - dg ys i]))"
  by (subst sub_abs_loop.simps) (simp add: dg_def Let_def)

lemma sub_abs_loop_stop: "\<not> i < length xs \<Longrightarrow> sub_abs_loop xs ys i carry rs = rs"
  by (subst sub_abs_loop.simps) simp

lemma sub_abs_loop_inv:
  "digits_ok xs \<Longrightarrow> digits_ok ys \<Longrightarrow> digits_ok rs \<Longrightarrow> length rs = length xs \<Longrightarrow> i \<le> length xs \<Longrightarrow>
   0 \<le> carry \<Longrightarrow> carry \<le> 1 \<Longrightarrow>
   length (sub_abs_loop xs ys i carry rs) = length xs \<and> digits_ok (sub_abs_loop xs ys i carry rs) \<and>
   (\<exists>b. 0 \<le> b \<and> b \<le> 1 \<and>
      mag (sub_abs_loop xs ys i carry rs) + BASE ^ i * (carry + mag (drop i ys))
      = mag (take i rs) + BASE ^ i * mag (drop i xs) + BASE ^ length xs * (b + mag (drop (length xs) ys)))"
proof (induction k \<equiv> "length xs - i" arbitrary: i carry rs)
  case 0
  then have i: "i = length xs" by simp
  have "mag rs + BASE ^ i * (carry + mag (drop i ys)) = mag (take i rs) + BASE ^ i * mag (drop i xs) + BASE ^ length xs * (carry + mag (drop (length xs) ys))"
    using 0 i by simp
  with 0 i show ?case by (auto simp: sub_abs_loop_stop)
next
  case (Suc k)
  then have True: "i < length xs" by simp
  define cur where "cur = xs ! i - carry - dg ys i"
  have rx: "0 \<le> xs ! i" "xs ! i < BASE" using digits_ok_nth[OF Suc.prems(1) True] by auto
  have ry: "0 \<le> dg ys i" "dg ys i < BASE" using dg_range Suc.prems by auto
  have dx: "dg xs i = xs ! i" using True by (simp add: dg_def)
  define d where "d = (if cur < 0 then cur + BASE else cur)"
  define c2 where "c2 = (if cur < 0 then 1 else (0::int))"
  have dr: "0 \<le> d" "d < BASE" using rx ry Suc.prems by (auto simp: d_def cur_def)
  have c2r: "0 \<le> c2" "c2 \<le> 1" by (auto simp: c2_def)
  have step: "sub_abs_loop xs ys i carry rs = sub_abs_loop xs ys (Suc i) c2 (rs[i := d])"
    using True by (simp add: sub_abs_loop_step cur_def d_def c2_def)
  have ok2: "digits_ok (rs[i := d])" using Suc.prems(3) dr by (rule digits_ok_update)
  have k: "k = length xs - Suc i" using Suc.hyps(2) by simp
  have len2: "length (rs[i := d]) = length xs" using Suc.prems by simp
  have le: "Suc i \<le> length xs" using True by simp
  note IH = Suc.hyps(1)[OF k Suc.prems(1,2) ok2 len2 le c2r]
  then obtain b where b: "0 \<le> b" "b \<le> 1"
     "mag (sub_abs_loop xs ys (Suc i) c2 (rs[i := d])) + BASE ^ Suc i * (c2 + mag (drop (Suc i) ys))
      = mag (take (Suc i) (rs[i := d])) + BASE ^ Suc i * mag (drop (Suc i) xs) + BASE ^ length xs * (b + mag (drop (length xs) ys))"
    by blast
  have ilen: "i < length rs" using True Suc.prems by simp
  have de: "d = cur + BASE * c2" by (simp add: d_def c2_def)
  have "mag (sub_abs_loop xs ys i carry rs) + BASE ^ i * (carry + mag (drop i ys))
      = mag (sub_abs_loop xs ys (Suc i) c2 (rs[i := d])) + BASE ^ i * (carry + dg ys i + BASE * mag (drop (Suc i) ys))"
    unfolding step by (subst mag_drop) (simp add: algebra_simps)
  also have "\<dots> = mag (sub_abs_loop xs ys (Suc i) c2 (rs[i := d])) + BASE ^ Suc i * (c2 + mag (drop (Suc i) ys))
        + BASE ^ i * (carry + dg ys i - BASE * c2)"
    by (simp add: algebra_simps)
  also have "\<dots> = mag (take (Suc i) (rs[i := d])) + BASE ^ Suc i * mag (drop (Suc i) xs) + BASE ^ length xs * (b + mag (drop (length xs) ys))
        + BASE ^ i * (carry + dg ys i - BASE * c2)"
    using b(3) by simp
  also have "\<dots> = mag (take i rs) + BASE ^ i * (xs ! i + BASE * mag (drop (Suc i) xs)) + BASE ^ length xs * (b + mag (drop (length xs) ys))"
    by (simp add: mag_take_update[OF ilen] de cur_def algebra_simps)
  also have "xs ! i + BASE * mag (drop (Suc i) xs) = mag (drop i xs)"
    by (subst (2) mag_drop) (simp add: dx)
  finally have "mag (sub_abs_loop xs ys i carry rs) + BASE ^ i * (carry + mag (drop i ys)) =
      mag (take i rs) + BASE ^ i * mag (drop i xs) + BASE ^ length xs * (b + mag (drop (length xs) ys))" .
  with b(1,2) IH step show ?case by auto
qed

lemma sub_abs_neg [simp]: "neg (sub_abs x y) = False"
  by (simp add: sub_abs_def Let_def)

lemma sub_abs_a:
  "a (sub_abs x y) = trim_loop (sub_abs_loop (a x) (a y) 0 0 (replicate (length (a x)) 0))"
  by (simp add: sub_abs_def Let_def trim_a)

lemma sub_abs_wf:
  assumes "digits_ok (a x)" "digits_ok (a y)"
  shows "wf_int2048 (sub_abs x y)"
proof -
  have "digits_ok (sub_abs_loop (a x) (a y) 0 0 (replicate (length (a x)) 0))"
    using sub_abs_loop_inv[OF assms, of "replicate (length (a x)) 0" 0 0] by simp
  then have "digits_ok (a (sub_abs x y))" by (simp add: sub_abs_a trim_loop_ok)
  moreover have "a (sub_abs x y) = [] \<or> last (a (sub_abs x y)) \<noteq> 0"
    unfolding sub_abs_a by (rule trim_loop_last)
  ultimately show ?thesis by (simp add: wf_int2048_def canonical_def)
qed

lemma sub_abs_mag:
  assumes "digits_ok (a x)" "digits_ok (a y)" "length (a y) \<le> length (a x)" "mag (a y) \<le> mag (a x)"
  shows "mag (a (sub_abs x y)) = mag (a x) - mag (a y)"
proof -
  let ?r = "sub_abs_loop (a x) (a y) 0 0 (replicate (length (a x)) 0)"
  from sub_abs_loop_inv[OF assms(1,2), of "replicate (length (a x)) 0" 0 0]
  obtain b where len: "length ?r = length (a x)" and ok: "digits_ok ?r" and b: "0 \<le> b" "b \<le> 1"
    and e: "mag ?r + mag (a y) = mag (a x) + BASE ^ length (a x) * b"
    using assms(3) by auto
  have "mag ?r < BASE ^ length (a x)" using mag_less[OF ok] len by simp
  then have "BASE ^ length (a x) * b < BASE ^ length (a x) * 1" using e assms(4) by simp
  then have "b < 1" using BASE_pos by (simp only: mult_less_cancel_left_pos zero_less_power)
  with b have "b = 0" by simp
  with e show ?thesis by (simp add: sub_abs_a trim_loop_mag)
qed

lemma sub_abs_mag_wf:
  assumes "wf_int2048 x" "wf_int2048 y" "mag (a y) \<le> mag (a x)"
  shows "mag (a (sub_abs x y)) = mag (a x) - mag (a y)"
  using assms sub_abs_mag[of x y] wf_length_le[OF assms(2,1,3)] by (simp add: wf_int2048_def)

subsection \<open>Multiplication by one block\<close>

lemma div_less_of_less_square:
  assumes "0 < (b::int)" "c < b * b"
  shows "c div b < b"
proof (rule ccontr)
  assume "\<not> c div b < b"
  then have "b \<le> c div b" by simp
  then have "b * b \<le> b * (c div b)" using assms(1) by (intro mult_left_mono) auto
  moreover have "0 \<le> c mod b" using assms(1) by simp
  moreover have "b * (c div b) + c mod b = c" by simp
  ultimately show False using assms(2) by linarith
qed

lemma mul_by_int_loop_step:
  "i < length xs \<Longrightarrow> mul_by_int_loop xs m i carry rs =
     mul_by_int_loop xs m (Suc i) ((xs ! i * m + carry) sdiv BASE) (rs[i := (xs ! i * m + carry) smod BASE])"
  by (subst mul_by_int_loop.simps) (simp add: Let_def)

lemma mul_by_int_loop_stop: "\<not> i < length xs \<Longrightarrow> mul_by_int_loop xs m i carry rs = (rs, carry)"
  by (subst mul_by_int_loop.simps) simp

lemma mul_by_int_loop_inv:
  "digits_ok xs \<Longrightarrow> digits_ok rs \<Longrightarrow> length rs = length xs \<Longrightarrow> i \<le> length xs \<Longrightarrow>
   0 \<le> m \<Longrightarrow> m < BASE \<Longrightarrow> 0 \<le> carry \<Longrightarrow> carry < BASE \<Longrightarrow>
   mul_by_int_loop xs m i carry rs = (rs', c') \<Longrightarrow>
   length rs' = length xs \<and> digits_ok rs' \<and> 0 \<le> c' \<and> c' < BASE \<and>
   mag (take i rs) + BASE ^ i * (carry + m * mag (drop i xs)) = mag rs' + BASE ^ length xs * c'"
proof (induction k \<equiv> "length xs - i" arbitrary: i carry rs)
  case 0
  then have "i = length xs" by simp
  with 0 show ?case by (simp add: mul_by_int_loop_stop)
next
  case (Suc k)
  then have True: "i < length xs" by simp
  define cur where "cur = xs ! i * m + carry"
  have rx: "0 \<le> xs ! i" "xs ! i \<le> BASE - 1" using digits_ok_nth[OF Suc.prems(1) True] by auto
  have "0 \<le> xs ! i * m" using rx Suc.prems by simp
  then have cur0: "0 \<le> cur" using Suc.prems by (simp add: cur_def)
  have "xs ! i * m \<le> (BASE - 1) * (BASE - 1)"
    using rx Suc.prems by (intro mult_mono) auto
  moreover have "(BASE - 1) * (BASE - 1) = BASE * BASE - 2 * BASE + 1" by (simp add: algebra_simps)
  ultimately have curlt: "cur < BASE * BASE" using Suc.prems(8) BASE_pos unfolding cur_def by linarith
  have d: "cur smod BASE = cur mod BASE" "cur sdiv BASE = cur div BASE"
    using cur0 by (simp_all add: sdiv_nonneg smod_nonneg)
  have dr: "0 \<le> cur mod BASE" "cur mod BASE < BASE" using BASE_pos by simp_all
  have c0: "0 \<le> cur div BASE" using cur0 BASE_pos by (simp add: pos_imp_zdiv_nonneg_iff)
  have c1: "cur div BASE < BASE" using BASE_pos curlt by (rule div_less_of_less_square)
  have ok2: "digits_ok (rs[i := cur mod BASE])" using Suc.prems(2) dr by (rule digits_ok_update)
  have step: "mul_by_int_loop xs m (Suc i) (cur div BASE) (rs[i := cur mod BASE]) = (rs', c')"
    using Suc.prems(9) True by (simp add: mul_by_int_loop_step cur_def[symmetric] d)
  have k: "k = length xs - Suc i" using Suc.hyps(2) by simp
  have len2: "length (rs[i := cur mod BASE]) = length xs" using Suc.prems by simp
  have le: "Suc i \<le> length xs" using True by simp
  note IH = Suc.hyps(1)[OF k Suc.prems(1) ok2 len2 le Suc.prems(5,6) c0 c1 step]
  have ilen: "i < length rs" using True Suc.prems by simp
  have dx: "dg xs i = xs ! i" using True by (simp add: dg_def)
  have "BASE ^ i * cur = BASE ^ i * (cur mod BASE + BASE * (cur div BASE))" by simp
  then have e: "BASE ^ i * cur = BASE ^ i * (cur mod BASE) + BASE ^ Suc i * (cur div BASE)"
    by (simp only: distrib_left power_Suc mult.assoc mult.left_commute)
  have "mag (take i rs) + BASE ^ i * (carry + m * mag (drop i xs))
      = mag (take i rs) + BASE ^ i * cur + BASE ^ Suc i * (m * mag (drop (Suc i) xs))"
    by (subst mag_drop) (simp add: cur_def dx algebra_simps)
  also have "\<dots> = mag (take (Suc i) (rs[i := cur mod BASE])) + BASE ^ Suc i * (cur div BASE + m * mag (drop (Suc i) xs))"
    using e by (simp add: mag_take_update[OF ilen] distrib_left)
  finally show ?case using IH by simp
qed

lemma mul_by_int_neg [simp]: "neg (mul_by_int x m) = False"
  by (simp add: mul_by_int_def zero_int2048_def split: prod.splits)

lemma mul_by_int_0 [simp]: "mul_by_int x 0 = zero_int2048"
  by (simp add: mul_by_int_def)

lemma mul_by_int_correct:
  assumes "wf_int2048 x" "0 \<le> m" "m < BASE"
  shows "wf_int2048 (mul_by_int x m) \<and> mag (a (mul_by_int x m)) = m * mag (a x)"
proof (cases "is_zero x \<or> m = 0")
  case True
  then have "mul_by_int x m = zero_int2048" by (auto simp: mul_by_int_def)
  moreover have "mag (a x) = 0 \<or> m = 0" using True by (auto simp: is_zero_def)
  ultimately show ?thesis using wf_zero by (auto simp: zero_int2048_def)
next
  case False
  then have ne: "a x \<noteq> []" and m1: "1 \<le> m" using assms(2) by (auto simp: is_zero_def)
  have ox: "digits_ok (a x)" using assms(1) by (simp add: wf_int2048_def)
  obtain rs' c' where r: "mul_by_int_loop (a x) m 0 0 (replicate (length (a x)) 0) = (rs', c')"
    by (cases "mul_by_int_loop (a x) m 0 0 (replicate (length (a x)) 0)")
  have "length rs' = length (a x) \<and> digits_ok rs' \<and> 0 \<le> c' \<and> c' < BASE \<and>
     mag (take 0 (replicate (length (a x)) (0::int))) + BASE ^ 0 * (0 + m * mag (drop 0 (a x)))
       = mag rs' + BASE ^ length (a x) * c'"
    by (rule mul_by_int_loop_inv[OF ox _ _ _ assms(2,3) _ _ r]) (simp_all add: BASE_def)
  then have len: "length rs' = length (a x)" and ok: "digits_ok rs'" and c: "0 \<le> c'" "c' < BASE"
    and e: "m * mag (a x) = mag rs' + BASE ^ length (a x) * c'" by simp_all
  have res: "mul_by_int x m = \<lparr>a = (if c' \<noteq> 0 then rs' @ [c'] else rs'), neg = False\<rparr>"
    using False r by (simp add: mul_by_int_def)
  have mg: "mag (a (mul_by_int x m)) = m * mag (a x)"
    using res e len by (simp add: mag_append)
  have dok: "digits_ok (a (mul_by_int x m))" using res ok c by simp
  have "last (a (mul_by_int x m)) \<noteq> 0"
  proof (cases "c' = 0")
    case False
    with res show ?thesis by simp
  next
    case True
    have rne: "rs' \<noteq> []" using len ne by auto
    have "BASE ^ (length (a x) - 1) \<le> mag (a x)" by (rule wf_mag_lower[OF assms(1) ne])
    also have "\<dots> \<le> m * mag (a x)" using m1 mag_nonneg[OF ox] by (simp add: mult_le_cancel_right1)
    finally have "BASE ^ (length rs' - 1) \<le> mag rs'" using e True len by simp
    from last_nonzero_of_mag[OF ok rne this] True res show ?thesis by simp
  qed
  then show ?thesis using mg dok by (simp add: wf_int2048_def canonical_def res)
qed

subsection \<open>A zero divisor\<close>

lemma of_ll_0 [simp]: "of_ll 0 = zero_int2048"
  by (simp add: of_ll_def trim_def trim_loop.simps zero_int2048_def)

lemma wf_is_zero: "wf_int2048 b \<Longrightarrow> is_zero b \<Longrightarrow> b = zero_int2048"
  by (cases b) (simp add: wf_int2048_def canonical_def is_zero_def zero_int2048_def)

lemma zero_simps [simp]:
  "a zero_int2048 = []" "neg zero_int2048 = False" "is_zero zero_int2048"
  "zero_int2048\<lparr>neg := False\<rparr> = zero_int2048"
  by (simp_all add: zero_int2048_def is_zero_def)

lemma divmod_abs_zero: "divmod_abs u zero_int2048 = (zero_int2048, zero_int2048)"
  by (simp add: divmod_abs_def)

lemma div_op_zero: "div_op x zero_int2048 = zero_int2048"
  by (simp add: div_op_def divmod_abs_zero)

lemma mul_op_zero_zero: "mul_op zero_int2048 zero_int2048 = Some zero_int2048"
  by (simp add: mul_op_def mul_fft_def mul_simple_def is_zero_def zero_int2048_def)

lemma add_abs_zero_right:
  assumes "wf_int2048 x"
  shows "add_abs x zero_int2048 = x\<lparr>neg := False\<rparr>"
proof -
  have ox: "digits_ok (a x)" using assms by (simp add: wf_int2048_def)
  have w: "wf_int2048 (add_abs x zero_int2048)" by (rule add_abs_wf[OF assms wf_zero])
  have "mag (a (add_abs x zero_int2048)) = mag (a x)"
    using add_abs_mag(1)[OF ox, of zero_int2048] by (simp add: zero_int2048_def)
  then have "a (add_abs x zero_int2048) = a x" by (rule wf_mag_inj[OF w assms])
  then show ?thesis by (intro int2048.equality) simp_all
qed

lemma sub_abs_zero_right:
  assumes "wf_int2048 x"
  shows "sub_abs x zero_int2048 = x\<lparr>neg := False\<rparr>"
proof -
  have ox: "digits_ok (a x)" using assms by (simp add: wf_int2048_def)
  have w: "wf_int2048 (sub_abs x zero_int2048)"
    by (rule sub_abs_wf[OF ox]) (simp add: zero_int2048_def)
  have "mag (a (sub_abs x zero_int2048)) = mag (a x)"
    using sub_abs_mag[OF ox, of zero_int2048] mag_nonneg[OF ox] by (simp add: zero_int2048_def)
  then have "a (sub_abs x zero_int2048) = a x" by (rule wf_mag_inj[OF w assms])
  then show ?thesis by (intro int2048.equality) simp_all
qed

lemma mod_op_zero:
  assumes "wf_int2048 x"
  shows "mod_op x zero_int2048 = Some (x\<lparr>neg := False\<rparr>)"
proof (cases "neg x")
  case True
  then show ?thesis
    by (simp add: mod_op_def div_op_zero mul_op_zero_zero add_abs_zero_right[OF assms])
next
  case False
  have cmp: "abs_compare x zero_int2048 = (if a x = [] then 0 else 1)"
    using abs_compare_mag[OF assms wf_zero] wf_mag_pos[OF assms] by (cases "a x = []") simp_all
  show ?thesis
  proof (cases "a x = []")
    case True
    with False have "x\<lparr>a := [], neg := False\<rparr> = x\<lparr>neg := False\<rparr>" by (intro int2048.equality) simp_all
    with True False show ?thesis
      by (simp add: mod_op_def div_op_zero mul_op_zero_zero cmp)
  next
    case F: False
    with False show ?thesis
      by (simp add: mod_op_def div_op_zero mul_op_zero_zero cmp sub_abs_zero_right[OF assms])
  qed
qed

lemma value_of_abs: "wf_int2048 x \<Longrightarrow> value_of (x\<lparr>neg := False\<rparr>) = \<bar>value_of x\<bar>"
  using mag_nonneg[of "a x"] by (simp add: value_of_def wf_int2048_def)

subsection \<open>The search of a quotient digit\<close>

declare search_digit.simps [simp del]

lemma abs_compare_le0:
  assumes "wf_int2048 x" "wf_int2048 y"
  shows "(abs_compare x y \<le> 0) = (mag (a x) \<le> mag (a y))"
  using abs_compare_mag[OF assms] by auto

lemma abs_compare_lt0:
  assumes "wf_int2048 x" "wf_int2048 y"
  shows "(abs_compare x y < 0) = (mag (a x) < mag (a y))"
  using abs_compare_mag[OF assms] by auto

lemma abs_compare_gt0:
  assumes "wf_int2048 x" "wf_int2048 y"
  shows "(abs_compare x y > 0) = (mag (a x) > mag (a y))"
  using abs_compare_mag[OF assms] by auto

lemma abs_compare_eq0:
  assumes "wf_int2048 x" "wf_int2048 y"
  shows "(abs_compare x y = 0) = (mag (a x) = mag (a y))"
  using abs_compare_mag[OF assms] by auto

lemma search_digit_step:
  assumes "wf_int2048 vshift" "wf_int2048 rem" "0 \<le> low" "low \<le> high" "high < BASE"
  shows "search_digit vshift rem low high best =
     (if ((low + high) div 2) * mag (a vshift) \<le> mag (a rem)
      then search_digit vshift rem ((low + high) div 2 + 1) high ((low + high) div 2)
      else search_digit vshift rem low ((low + high) div 2 - 1) best)"
proof -
  have m: "0 \<le> (low + high) div 2" "(low + high) div 2 < BASE" using assms by auto
  note c = mul_by_int_correct[OF assms(1) m]
  have "(abs_compare (mul_by_int vshift ((low + high) div 2)) rem \<le> 0)
      = (((low + high) div 2) * mag (a vshift) \<le> mag (a rem))"
    using abs_compare_le0[of "mul_by_int vshift ((low + high) div 2)" rem] c assms(2) by simp
  then show ?thesis using assms(4) by (subst search_digit.simps) (simp add: Let_def)
qed

lemma search_digit_stop: "\<not> low \<le> high \<Longrightarrow> search_digit vshift rem low high best = best"
  by (subst search_digit.simps) simp

lemma search_digit_inv:
  "wf_int2048 vshift \<Longrightarrow> wf_int2048 rem \<Longrightarrow> 0 \<le> low \<Longrightarrow> low \<le> high + 1 \<Longrightarrow> high < BASE \<Longrightarrow>
   best = (if low = 0 then 0 else low - 1) \<Longrightarrow>
   (low = 0 \<or> (low - 1) * mag (a vshift) \<le> mag (a rem)) \<Longrightarrow>
   (high = BASE - 1 \<or> mag (a rem) < (high + 1) * mag (a vshift)) \<Longrightarrow>
   r = search_digit vshift rem low high best \<Longrightarrow>
   0 \<le> r \<and> r < BASE \<and> r * mag (a vshift) \<le> mag (a rem) \<and>
   (r = BASE - 1 \<or> mag (a rem) < (r + 1) * mag (a vshift))"
proof (induction k \<equiv> "nat (high - low + 1)" arbitrary: low high best rule: less_induct)
  case less
  have R: "0 \<le> mag (a rem)" using less.prems by (simp add: wf_int2048_def mag_nonneg)
  have V: "0 \<le> mag (a vshift)" using less.prems by (simp add: wf_int2048_def mag_nonneg)
  show ?case
  proof (cases "low \<le> high")
    case False
    then have lh: "low = high + 1" using less.prems by simp
    then have r: "r = best" using less.prems by (simp add: search_digit_stop)
    show ?thesis
    proof (cases "low = 0")
      case True
      with lh have "high = - 1" by simp
      with less.prems(8) have "mag (a rem) < 0" by (simp add: BASE_def)
      with R show ?thesis by simp
    next
      case F: False
      then have b: "best = high" using less.prems lh by simp
      with F less.prems lh r show ?thesis by auto
    qed
  next
    case le: True
    define mid where "mid = (low + high) div 2"
    have mid: "low \<le> mid" "mid \<le> high" using le by (simp_all add: mid_def)
    note st = search_digit_step[OF less.prems(1,2,3) le less.prems(5), of best, folded mid_def]
    show ?thesis
    proof (cases "mid * mag (a vshift) \<le> mag (a rem)")
      case True
      have r: "r = search_digit vshift rem (mid + 1) high mid" using less.prems(9) st True by simp
      have k: "nat (high - (mid + 1) + 1) < nat (high - low + 1)" using mid le by simp
      have b: "mid = (if mid + 1 = 0 then 0 else mid + 1 - 1)" using mid less.prems(3) by simp
      show ?thesis
        by (rule less.hyps[OF k less.prems(1,2) _ _ less.prems(5) b _ less.prems(8) r])
           (use mid less.prems(3) True in simp_all)
    next
      case False
      have r: "r = search_digit vshift rem low (mid - 1) best" using less.prems(9) st False by simp
      have k: "nat (mid - 1 - low + 1) < nat (high - low + 1)" using mid le by simp
      show ?thesis
        by (rule less.hyps[OF k less.prems(1,2,3) _ _ less.prems(6,7) _ r])
           (use mid less.prems(5) False in simp_all)
    qed
  qed
qed

lemma search_digit_correct:
  assumes "wf_int2048 vshift" "wf_int2048 rem" "r = search_digit vshift rem 0 (BASE - 1) 0"
  shows "0 \<le> r \<and> r < BASE \<and> r * mag (a vshift) \<le> mag (a rem) \<and>
         (r = BASE - 1 \<or> mag (a rem) < (r + 1) * mag (a vshift))"
  by (rule search_digit_inv[OF assms(1,2) _ _ _ _ _ _ assms(3)]) (simp_all add: BASE_def)

lemma search_digit_greatest:
  assumes "wf_int2048 vshift" "wf_int2048 rem" "r = search_digit vshift rem 0 (BASE - 1) 0"
    "0 \<le> d" "d < BASE" "d * mag (a vshift) \<le> mag (a rem)"
  shows "d \<le> r"
proof (rule ccontr)
  assume "\<not> d \<le> r"
  then have lt: "r + 1 \<le> d" by simp
  have V: "0 \<le> mag (a vshift)" using assms by (simp add: wf_int2048_def mag_nonneg)
  from search_digit_correct[OF assms(1,2,3)] lt assms(5)
  have "mag (a rem) < (r + 1) * mag (a vshift)" by auto
  also have "\<dots> \<le> d * mag (a vshift)" using lt V by (rule mult_right_mono)
  finally show False using assms(6) by simp
qed

subsection \<open>The division loop\<close>

lemma wf_shifted:
  assumes "wf_int2048 v" "a v \<noteq> []" "a vshift = replicate pos 0 @ a v"
  shows "wf_int2048 vshift" "mag (a vshift) = BASE ^ pos * mag (a v)"
  using assms by (simp_all add: wf_int2048_def canonical_def mag_append)

lemma divmod_body_correct:
  assumes "wf_int2048 vshift" "wf_int2048 rem"
    and "divmod_body pos vshift rem q = (best, vshift', rem', q')"
  shows "0 \<le> best \<and> best < BASE \<and> best * mag (a vshift) \<le> mag (a rem)
         \<and> (best = BASE - 1 \<or> mag (a rem) < (best + 1) * mag (a vshift))
         \<and> wf_int2048 rem' \<and> mag (a rem') = mag (a rem) - best * mag (a vshift)
         \<and> (best \<noteq> 0 \<longrightarrow> \<not> neg rem') \<and> (best = 0 \<longrightarrow> rem' = rem)
         \<and> q' = q\<lparr>a := (a q)[pos := best]\<rparr>
         \<and> a vshift' = trim_loop (tl (a vshift))"
proof -
  have b: "best = search_digit vshift rem 0 (BASE - 1) 0"
    and r: "rem' = (if best \<noteq> 0 then sub_abs rem (mul_by_int vshift best) else rem)"
    and q: "q' = q\<lparr>a := (a q)[pos := best]\<rparr>"
    and v: "vshift' = trim (if a vshift \<noteq> [] then vshift\<lparr>a := tl (a vshift)\<rparr> else vshift)"
    using assms(3) unfolding divmod_body_def Let_def by auto
  note sd = search_digit_correct[OF assms(1,2) b]
  then have b0: "0 \<le> best" and b1: "best < BASE" by simp_all
  note mc = mul_by_int_correct[OF assms(1) b0 b1]
  have le: "mag (a (mul_by_int vshift best)) \<le> mag (a rem)" using mc sd by simp
  have w: "wf_int2048 rem'"
    using r assms(2) mc sub_abs_wf[of rem "mul_by_int vshift best"] by (simp add: wf_int2048_def)
  have m: "mag (a rem') = mag (a rem) - best * mag (a vshift)"
    using r sub_abs_mag_wf[OF assms(2) _ le] mc by simp
  have av: "a vshift' = trim_loop (tl (a vshift))"
    using v by (cases "a vshift = []") (simp_all add: trim_a)
  show ?thesis using sd w m r q av by simp
qed

lemma mag_update:
  "i < length ds \<Longrightarrow> mag (ds[i := d]) = mag ds + BASE ^ i * (d - ds ! i)"
proof -
  assume i: "i < length ds"
  have u: "ds[i := d] = take i ds @ d # drop (Suc i) ds" using i by (rule upd_conv_take_nth_drop)
  have o: "ds = take i ds @ ds ! i # drop (Suc i) ds" using i by (rule id_take_nth_drop)
  have "mag (take i ds @ d # drop (Suc i) ds) = mag (take i ds @ ds ! i # drop (Suc i) ds) + BASE ^ i * (d - ds ! i)"
    using i by (simp add: mag_append algebra_simps)
  with u o show ?thesis by simp
qed

lemma divmod_body_next:
  assumes "wf_int2048 v" "a v \<noteq> []" "wf_int2048 rem" "mag (a rem) < BASE ^ Suc pos * mag (a v)"
    and av: "a vshift = replicate pos 0 @ a v"
    and body: "divmod_body pos vshift rem q = (best, vshift1, rem1, q1)"
  shows "wf_int2048 vshift" "mag (a vshift) = BASE ^ pos * mag (a v)" "wf_int2048 rem1"
    "mag (a rem1) < BASE ^ pos * mag (a v)"
    "0 < pos \<Longrightarrow> a vshift1 = replicate (pos - 1) 0 @ a v"
proof -
  note ws = wf_shifted[OF assms(1,2) av]
  show "wf_int2048 vshift" "mag (a vshift) = BASE ^ pos * mag (a v)" by (rule ws)+
  from divmod_body_correct[OF ws(1) assms(3) body]
  have b: "best = BASE - 1 \<or> mag (a rem) < (best + 1) * mag (a vshift)"
    and w1: "wf_int2048 rem1" and m1: "mag (a rem1) = mag (a rem) - best * mag (a vshift)"
    and v1: "a vshift1 = trim_loop (tl (a vshift))"
    by simp_all
  show "wf_int2048 rem1" by (rule w1)
  show "mag (a rem1) < BASE ^ pos * mag (a v)"
  proof (cases "best = BASE - 1")
    case True
    have "mag (a rem1) = mag (a rem) - (BASE - 1) * (BASE ^ pos * mag (a v))"
      using m1 True ws(2) by simp
    also have "\<dots> < BASE ^ Suc pos * mag (a v) - (BASE - 1) * (BASE ^ pos * mag (a v))"
      using assms(4) by simp
    also have "\<dots> = BASE ^ pos * mag (a v)" by (simp add: algebra_simps)
    finally show ?thesis .
  next
    case False
    with b have "mag (a rem) < (best + 1) * mag (a vshift)" by simp
    then show ?thesis using m1 ws(2) by (simp add: algebra_simps)
  qed
  show "a vshift1 = replicate (pos - 1) 0 @ a v" if "0 < pos"
  proof -
    from that obtain p where p: "pos = Suc p" by (cases pos) auto
    have "last (replicate p 0 @ a v) \<noteq> 0"
      using assms(1,2) by (simp add: wf_int2048_def canonical_def)
    then have "trim_loop (replicate p 0 @ a v) = replicate p 0 @ a v" by (intro trim_loop_id) simp
    then show ?thesis using v1 av p by simp
  qed
qed

lemma divmod_loop_inv:
  "wf_int2048 v \<Longrightarrow> a v \<noteq> [] \<Longrightarrow> wf_int2048 rem \<Longrightarrow> mag (a rem) < BASE ^ n * mag (a v) \<Longrightarrow>
   (0 < n \<Longrightarrow> a vshift = replicate (n - 1) 0 @ a v) \<Longrightarrow>
   n \<le> length (a q) \<Longrightarrow> digits_ok (a q) \<Longrightarrow> (\<forall>i < n. a q ! i = 0) \<Longrightarrow>
   divmod_loop n vshift rem q = (rem', q') \<Longrightarrow>
   wf_int2048 rem' \<and> mag (a rem') < mag (a v) \<and> (rem' = rem \<or> \<not> neg rem')
   \<and> mag (a rem) + mag (a q) * mag (a v) = mag (a q') * mag (a v) + mag (a rem')
   \<and> digits_ok (a q') \<and> length (a q') = length (a q) \<and> neg q' = neg q"
proof (induction n arbitrary: vshift rem q)
  case 0
  then show ?case by simp
next
  case (Suc pos)
  obtain best vshift1 rem1 q1 where body: "divmod_body pos vshift rem q = (best, vshift1, rem1, q1)"
    by (cases "divmod_body pos vshift rem q") auto
  have av: "a vshift = replicate pos 0 @ a v" using Suc.prems(5) by simp
  note ws = wf_shifted[OF Suc.prems(1,2) av]
  from divmod_body_correct[OF ws(1) Suc.prems(3) body]
  have b: "0 \<le> best" "best < BASE" "best * mag (a vshift) \<le> mag (a rem)"
    "best = BASE - 1 \<or> mag (a rem) < (best + 1) * mag (a vshift)"
    and w1: "wf_int2048 rem1" and m1: "mag (a rem1) = mag (a rem) - best * mag (a vshift)"
    and n1: "best \<noteq> 0 \<longrightarrow> \<not> neg rem1" "best = 0 \<longrightarrow> rem1 = rem"
    and q1: "q1 = q\<lparr>a := (a q)[pos := best]\<rparr>"
    and v1: "a vshift1 = trim_loop (tl (a vshift))"
    by simp_all
  note nx = divmod_body_next[OF Suc.prems(1,2,3,4) av body]
  note lt1 = nx(4) and sh = nx(5)
  have len: "pos \<le> length (a q1)" using q1 Suc.prems(6) by simp
  have posl: "pos < length (a q)" using Suc.prems(6) by simp
  have ok1: "digits_ok (a q1)" using q1 Suc.prems(7) b by (simp add: digits_ok_update)
  have z1: "\<forall>i < pos. a q1 ! i = 0" using q1 Suc.prems(8) by simp
  have rest: "divmod_loop pos vshift1 rem1 q1 = (rem', q')" using Suc.prems(9) body by simp
  note IH = Suc.IH[OF Suc.prems(1,2) w1 lt1 sh len ok1 z1 rest]
  have mq1: "mag (a q1) = mag (a q) + BASE ^ pos * best"
    using q1 mag_update[OF posl, of best] Suc.prems(8) by simp
  have "mag (a rem) + mag (a q) * mag (a v) = mag (a rem1) + mag (a q1) * mag (a v)"
    using m1 mq1 ws(2) by (simp add: algebra_simps)
  moreover have "rem' = rem \<or> \<not> neg rem'" using IH n1 by auto
  ultimately show ?case using IH q1 by simp
qed

lemma divmod_abs_start:
  assumes "wf_int2048 u" "wf_int2048 v" "a v \<noteq> []" "mag (a v) \<le> mag (a u)"
  shows "mag (a u) < BASE ^ Suc (length (a u) - length (a v)) * mag (a v)"
proof -
  have ll: "length (a v) \<le> length (a u)" by (rule wf_length_le[OF assms(2,1,4)])
  define k where "k = length (a u) - length (a v)"
  have "mag (a u) < BASE ^ length (a u)" using assms(1) by (simp add: wf_int2048_def mag_less)
  also have "\<dots> = BASE ^ Suc k * BASE ^ (length (a v) - 1)"
  proof -
    have "0 < length (a v)" using assms(3) by simp
    then have "length (a u) = Suc k + (length (a v) - 1)" using ll unfolding k_def by linarith
    then show ?thesis by (simp only: power_add)
  qed
  also have "\<dots> \<le> BASE ^ Suc k * mag (a v)"
    using wf_mag_lower[OF assms(2,3)] BASE_pos by (intro mult_left_mono) simp_all
  finally show ?thesis unfolding k_def .
qed

lemma divmod_abs_small:
  assumes "wf_int2048 u" "wf_int2048 v" "\<not> is_zero v" "mag (a u) < mag (a v)"
  shows "divmod_abs u v = (zero_int2048, u)"
  using assms abs_compare_lt0[OF assms(1,2)] by (simp add: divmod_abs_def)

lemma divmod_abs_correct:
  assumes "wf_int2048 u" "wf_int2048 v" "\<not> is_zero v" "divmod_abs u v = (q, r)"
  shows "wf_int2048 q \<and> wf_int2048 r \<and> \<not> neg q \<and> (neg r \<longrightarrow> neg u)
         \<and> mag (a u) = mag (a q) * mag (a v) + mag (a r) \<and> mag (a r) < mag (a v)"
proof (cases "mag (a u) < mag (a v)")
  case True
  from divmod_abs_small[OF assms(1,2,3) True] assms(4) have "q = zero_int2048" "r = u" by simp_all
  with True assms(1) wf_zero show ?thesis by simp
next
  case False
  then have ge: "mag (a v) \<le> mag (a u)" by simp
  have ne: "a v \<noteq> []" using assms(3) by (simp add: is_zero_def)
  have ll: "length (a v) \<le> length (a u)" by (rule wf_length_le[OF assms(2,1) ge])
  define k where "k = length (a u) - length (a v)"
  define vshift where "vshift = (if k > 0 then v\<lparr>a := replicate k 0 @ a v\<rparr> else v)"
  define q0 where "q0 = zero_int2048\<lparr>a := replicate (k + 1) 0\<rparr>"
  obtain rem q1 where loop: "divmod_loop (Suc k) vshift u q0 = (rem, q1)"
    by (cases "divmod_loop (Suc k) vshift u q0") auto
  have res: "divmod_abs u v = (trim q1, rem\<lparr>neg := False\<rparr>)"
    using assms(3) False abs_compare_lt0[OF assms(1,2)] loop unfolding k_def vshift_def q0_def
    by (simp add: divmod_abs_def Let_def del: divmod_loop.simps)
  have avs: "a vshift = replicate k 0 @ a v" by (simp add: vshift_def)
  have lt: "mag (a u) < BASE ^ Suc k * mag (a v)"
    unfolding k_def by (rule divmod_abs_start[OF assms(1,2) ne ge])
  have inv: "wf_int2048 rem \<and> mag (a rem) < mag (a v) \<and> (rem = u \<or> \<not> neg rem)
     \<and> mag (a u) + mag (a q0) * mag (a v) = mag (a q1) * mag (a v) + mag (a rem)
     \<and> digits_ok (a q1) \<and> length (a q1) = length (a q0) \<and> neg q1 = neg q0"
    by (rule divmod_loop_inv[OF assms(2) ne assms(1) lt _ _ _ _ loop])
       (auto simp: avs q0_def BASE_pos nth_Cons')
  have wq: "wf_int2048 (trim q1)" using inv by (simp add: trim_wf)
  have nq: "\<not> neg (trim q1)" using inv by (simp add: trim_def Let_def q0_def)
  have mq: "mag (a (trim q1)) = mag (a q1)" by (simp add: trim_a trim_loop_mag)
  have wr: "wf_int2048 (rem\<lparr>neg := False\<rparr>)" using inv by (simp add: wf_int2048_def canonical_def)
  have "q = trim q1" "r = rem\<lparr>neg := False\<rparr>" using res assms(4) by simp_all
  then show ?thesis using wq nq mq wr inv by (simp add: q0_def)
qed

lemma divmod_abs_div_mod:
  assumes "wf_int2048 u" "wf_int2048 v" "\<not> is_zero v" "divmod_abs u v = (q, r)"
  shows "mag (a q) = mag (a u) div mag (a v)" "mag (a r) = mag (a u) mod mag (a v)"
proof -
  from divmod_abs_correct[OF assms]
  have w: "wf_int2048 r" and e: "mag (a u) = mag (a q) * mag (a v) + mag (a r)"
    and lt: "mag (a r) < mag (a v)" by simp_all
  have r0: "0 \<le> mag (a r)" using w by (simp add: wf_int2048_def mag_nonneg)
  have v0: "mag (a v) \<noteq> 0" using r0 lt by simp
  have "(mag (a q) * mag (a v) + mag (a r)) div mag (a v) = mag (a q)"
    using v0 r0 lt by (simp add: div_pos_pos_trivial)
  then show "mag (a q) = mag (a u) div mag (a v)" using e by simp
  have "(mag (a q) * mag (a v) + mag (a r)) mod mag (a v) = mag (a r)"
    using r0 lt by (simp add: mod_pos_pos_trivial)
  then show "mag (a r) = mag (a u) mod mag (a v)" using e by simp
qed

subsection \<open>What every pass of the division loop sees\<close>

lemma divmod_loop_upper:
  "divmod_loop n vshift rem q = (rem', q') \<Longrightarrow> n \<le> j \<Longrightarrow> a q' ! j = a q ! j"
proof (induction n arbitrary: vshift rem q)
  case 0
  then show ?case by simp
next
  case (Suc pos)
  obtain best vshift1 rem1 q1 where body: "divmod_body pos vshift rem q = (best, vshift1, rem1, q1)"
    by (cases "divmod_body pos vshift rem q") auto
  have q1: "q1 = q\<lparr>a := (a q)[pos := best]\<rparr>"
    using body unfolding divmod_body_def Let_def by auto
  have rest: "divmod_loop pos vshift1 rem1 q1 = (rem', q')" using Suc.prems(1) body by simp
  have "a q' ! j = a q1 ! j" by (rule Suc.IH[OF rest]) (use Suc.prems(2) in simp)
  then show ?case using q1 Suc.prems(2) by simp
qed

lemma divmod_states_inv:
  "wf_int2048 v \<Longrightarrow> a v \<noteq> [] \<Longrightarrow> wf_int2048 rem \<Longrightarrow> mag (a rem) < BASE ^ n * mag (a v) \<Longrightarrow>
   (0 < n \<Longrightarrow> a vshift = replicate (n - 1) 0 @ a v) \<Longrightarrow> n \<le> length (a q) \<Longrightarrow>
   divmod_loop n vshift rem q = (rem', q') \<Longrightarrow>
   list_all (\<lambda>(pos, vs, rm, best, rm1).
       pos < n \<and> wf_int2048 vs \<and> wf_int2048 rm \<and> mag (a vs) = BASE ^ pos * mag (a v)
       \<and> 0 \<le> best \<and> best \<le> BASE - 1 \<and> best * mag (a vs) \<le> mag (a rm)
       \<and> (\<forall>d. 0 \<le> d \<and> d \<le> BASE - 1 \<and> d * mag (a vs) \<le> mag (a rm) \<longrightarrow> d \<le> best)
       \<and> mag (a rm1) = mag (a rm) - best * mag (a vs)
       \<and> a q' ! pos = best)
     (divmod_states n vshift rem q)"
proof (induction n arbitrary: vshift rem q)
  case 0
  then show ?case by simp
next
  case (Suc pos)
  obtain best vshift1 rem1 q1 where body: "divmod_body pos vshift rem q = (best, vshift1, rem1, q1)"
    by (cases "divmod_body pos vshift rem q") auto
  have av: "a vshift = replicate pos 0 @ a v" using Suc.prems(5) by simp
  note nx = divmod_body_next[OF Suc.prems(1,2,3,4) av body]
  from divmod_body_correct[OF nx(1) Suc.prems(3) body]
  have b: "0 \<le> best" "best < BASE" "best * mag (a vshift) \<le> mag (a rem)"
    and m1: "mag (a rem1) = mag (a rem) - best * mag (a vshift)"
    and q1: "q1 = q\<lparr>a := (a q)[pos := best]\<rparr>"
    by simp_all
  have bs: "best = search_digit vshift rem 0 (BASE - 1) 0"
    using body unfolding divmod_body_def Let_def by auto
  have g: "\<forall>d. 0 \<le> d \<and> d \<le> BASE - 1 \<and> d * mag (a vshift) \<le> mag (a rem) \<longrightarrow> d \<le> best"
    using search_digit_greatest[OF nx(1) Suc.prems(3) bs] by auto
  have rest: "divmod_loop pos vshift1 rem1 q1 = (rem', q')" using Suc.prems(7) body by simp
  have posl: "pos < length (a q)" using Suc.prems(6) by simp
  have "a q' ! pos = a q1 ! pos" by (rule divmod_loop_upper[OF rest]) simp
  then have dq: "a q' ! pos = best" using q1 posl by simp
  have len: "pos \<le> length (a q1)" using q1 posl by simp
  note IH = Suc.IH[OF Suc.prems(1,2) nx(3,4,5) len rest]
  have tl: "list_all (\<lambda>(p, vs, rm, best, rm1).
       p < Suc pos \<and> wf_int2048 vs \<and> wf_int2048 rm \<and> mag (a vs) = BASE ^ p * mag (a v)
       \<and> 0 \<le> best \<and> best \<le> BASE - 1 \<and> best * mag (a vs) \<le> mag (a rm)
       \<and> (\<forall>d. 0 \<le> d \<and> d \<le> BASE - 1 \<and> d * mag (a vs) \<le> mag (a rm) \<longrightarrow> d \<le> best)
       \<and> mag (a rm1) = mag (a rm) - best * mag (a vs)
       \<and> a q' ! p = best)
     (divmod_states pos vshift1 rem1 q1)"
    using IH by (auto simp: list_all_iff)
  show ?case using body tl b g m1 dq nx(1,2) Suc.prems(3) by simp
qed

lemma divmod_states_positions:
  "map fst (divmod_states n vshift rem q) = rev [0..<n]"
proof (induction n arbitrary: vshift rem q)
  case 0
  then show ?case by simp
next
  case (Suc pos)
  then show ?case by (simp split: prod.splits)
qed

subsection \<open>The signed quotient\<close>

lemma of_ll_1: "of_ll 1 = \<lparr>a = [1], neg = False\<rparr>"
  by code_simp

lemma wf_abs: "wf_int2048 x \<Longrightarrow> wf_int2048 (x\<lparr>neg := False\<rparr>)"
  by (simp add: wf_int2048_def canonical_def)

lemma wf_neg_pos: "wf_int2048 x \<Longrightarrow> neg x \<Longrightarrow> 0 < mag (a x)"
  using wf_mag_pos[of x] by (auto simp: wf_int2048_def canonical_def)

lemma value_of_mag: "wf_int2048 x \<Longrightarrow> \<bar>value_of x\<bar> = mag (a x)"
  using mag_nonneg[of "a x"] by (simp add: value_of_def wf_int2048_def)

lemma add_abs_one:
  assumes "wf_int2048 q"
  shows "wf_int2048 ((add_abs q (of_ll 1))\<lparr>neg := True\<rparr>)"
    and "mag (a (add_abs q (of_ll 1))) = mag (a q) + 1"
proof -
  have w1: "wf_int2048 (of_ll 1)" by (simp add: of_ll_1 wf_int2048_def canonical_def BASE_def)
  have oq: "digits_ok (a q)" using assms by (simp add: wf_int2048_def)
  have o1: "digits_ok (a (of_ll 1))" using w1 by (simp add: wf_int2048_def)
  show m: "mag (a (add_abs q (of_ll 1))) = mag (a q) + 1"
    using add_abs_mag(1)[OF oq o1] by (simp add: of_ll_1)
  have w: "wf_int2048 (add_abs q (of_ll 1))" by (rule add_abs_wf[OF assms w1])
  have "a (add_abs q (of_ll 1)) \<noteq> []"
  proof
    assume "a (add_abs q (of_ll 1)) = []"
    with m have "mag (a q) + 1 = 0" by simp
    then show False using mag_nonneg[OF oq] by simp
  qed
  with w show "wf_int2048 ((add_abs q (of_ll 1))\<lparr>neg := True\<rparr>)"
    by (simp add: wf_int2048_def canonical_def)
qed

lemma div_op_cases:
  assumes "divmod_abs (x\<lparr>neg := False\<rparr>) (b\<lparr>neg := False\<rparr>) = (qa, ra)"
  shows "div_op x b =
     (if neg x \<noteq> neg b \<and> \<not> is_zero ra then (add_abs qa (of_ll 1))\<lparr>neg := True\<rparr>
      else qa\<lparr>neg := (neg x \<noteq> neg b) \<and> \<not> is_zero qa\<rparr>)"
  using assms by (simp add: div_op_def Let_def)

lemma floor_div_signs:
  fixes X B :: int
  assumes "0 \<le> X" "0 < B"
  shows "(- X) div B = (if X mod B = 0 then - (X div B) else - (X div B + 1))"
    and "X div (- B) = (if X mod B = 0 then - (X div B) else - (X div B + 1))"
    and "(- X) div (- B) = X div B"
  using assms by (simp_all add: zdiv_zminus1_eq_if zdiv_zminus2_eq_if)

lemma div_op_correct:
  assumes "wf_int2048 x" "wf_int2048 b" "\<not> is_zero b"
    and "divmod_abs (x\<lparr>neg := False\<rparr>) (b\<lparr>neg := False\<rparr>) = (qa, ra)"
  shows "wf_int2048 (div_op x b)"
    and "value_of (div_op x b) = value_of x div value_of b"
    and "mag (a qa) = mag (a x) div mag (a b)"
    and "mag (a ra) = mag (a x) mod mag (a b)"
    and "wf_int2048 qa" and "wf_int2048 ra"
proof -
  have nz: "\<not> is_zero (b\<lparr>neg := False\<rparr>)" using assms(3) by (simp add: is_zero_def)
  note dm = divmod_abs_correct[OF wf_abs[OF assms(1)] wf_abs[OF assms(2)] nz assms(4)]
  note dd = divmod_abs_div_mod[OF wf_abs[OF assms(1)] wf_abs[OF assms(2)] nz assms(4)]
  show q: "mag (a qa) = mag (a x) div mag (a b)" using dd(1) by simp
  show r: "mag (a ra) = mag (a x) mod mag (a b)" using dd(2) by simp
  show wq: "wf_int2048 qa" and wr: "wf_int2048 ra" using dm by simp_all
  have B: "0 < mag (a b)" using wf_mag_pos[OF assms(2)] assms(3) by (simp add: is_zero_def)
  have X: "0 \<le> mag (a x)" using assms(1) by (simp add: wf_int2048_def mag_nonneg)
  have zr: "is_zero ra = (mag (a x) mod mag (a b) = 0)"
    using wf_mag_0[OF wr] r by (simp add: is_zero_def)
  have zq: "is_zero qa = (mag (a x) div mag (a b) = 0)"
    using wf_mag_0[OF wq] q by (simp add: is_zero_def)
  note c = div_op_cases[OF assms(4)]
  note one = add_abs_one[OF wq]
  show "wf_int2048 (div_op x b)"
    using c one(1) wq by (auto simp: wf_int2048_def canonical_def is_zero_def)
  show "value_of (div_op x b) = value_of x div value_of b"
  proof (cases "neg x \<noteq> neg b \<and> \<not> is_zero ra")
    case True
    then have d: "div_op x b = (add_abs qa (of_ll 1))\<lparr>neg := True\<rparr>" using c by simp
    have v: "value_of (div_op x b) = - (mag (a x) div mag (a b) + 1)"
      using d one(2) q by (simp add: value_of_def)
    from True zr have m: "mag (a x) mod mag (a b) \<noteq> 0" by simp
    show ?thesis
    proof (cases "neg x")
      case True
      with \<open>neg x \<noteq> neg b \<and> \<not> is_zero ra\<close> have "\<not> neg b" by simp
      with True v m floor_div_signs(1)[OF X B] show ?thesis by (simp add: value_of_def)
    next
      case False
      with \<open>neg x \<noteq> neg b \<and> \<not> is_zero ra\<close> have "neg b" by simp
      with False v m floor_div_signs(2)[OF X B] show ?thesis by (simp add: value_of_def)
    qed
  next
    case False
    then have d: "div_op x b = qa\<lparr>neg := (neg x \<noteq> neg b) \<and> \<not> is_zero qa\<rparr>" using c by auto
    show ?thesis
    proof (cases "neg x = neg b")
      case True
      then have "value_of (div_op x b) = mag (a x) div mag (a b)" using d q by (simp add: value_of_def)
      with True floor_div_signs(3)[OF X B] show ?thesis by (simp add: value_of_def)
    next
      case F: False
      with False zr have m: "mag (a x) mod mag (a b) = 0" by simp
      have v: "value_of (div_op x b) = - (mag (a x) div mag (a b))"
        using d q zq F by (simp add: value_of_def)
      show ?thesis
      proof (cases "neg x")
        case True
        with F have "\<not> neg b" by simp
        with True v m floor_div_signs(1)[OF X B] show ?thesis by (simp add: value_of_def)
      next
        case False
        with F have "neg b" by simp
        with False v m floor_div_signs(2)[OF X B] show ?thesis by (simp add: value_of_def)
      qed
    qed
  qed
qed

subsection \<open>The constructor from a machine integer\<close>

declare of_ll_loop.simps [simp del]

lemma uint_10000: "uint (10000 :: 64 word) = 10000" by simp

lemma of_ll_loop_inv:
  "digits_ok ds \<Longrightarrow>
   digits_ok (of_ll_loop x ds) \<and> mag (of_ll_loop x ds) = mag ds + BASE ^ length ds * uint x
   \<and> (x \<noteq> 0 \<longrightarrow> of_ll_loop x ds \<noteq> [] \<and> last (of_ll_loop x ds) \<noteq> 0)
   \<and> (x = 0 \<longrightarrow> of_ll_loop x ds = ds)"
proof (induction x ds rule: of_ll_loop.induct)
  case (1 x ds)
  show ?case
  proof (cases "x = 0")
    case True
    then show ?thesis using 1 by (subst (1 2 3 4 5) of_ll_loop.simps) simp
  next
    case False
    define d where "d = uint (x mod 10000)"
    define y where "y = x div 10000"
    have dm: "d = uint x mod 10000" by (simp add: d_def uint_mod)
    have yd: "uint y = uint x div 10000" by (simp add: y_def uint_div)
    have dr: "0 \<le> d" "d < BASE" by (simp_all add: dm BASE_def)
    have st: "of_ll_loop x ds = of_ll_loop y (ds @ [d])"
      using False by (subst of_ll_loop.simps) (simp add: d_def y_def)
    have ok: "digits_ok (ds @ [d])" using 1(2) dr by simp
    note IH = 1(1)[OF False, folded d_def y_def, OF ok]
    have e: "uint x = d + BASE * uint y" by (simp add: dm yd BASE_def)
    have m: "mag (of_ll_loop x ds) = mag ds + BASE ^ length ds * uint x"
      using IH by (simp add: st mag_append e algebra_simps)
    have l: "of_ll_loop x ds \<noteq> [] \<and> last (of_ll_loop x ds) \<noteq> 0"
    proof (cases "y = 0")
      case True
      then have "uint x div 10000 = 0" using yd by simp
      then have "uint x < 10000" by (simp add: div_eq_0_iff) 
      then have "d = uint x" by (simp add: dm)
      moreover have "uint x \<noteq> 0" using False by (simp add: uint_0_iff)
      ultimately show ?thesis using IH True by (simp add: st)
    next
      case F: False
      then show ?thesis using IH by (simp add: st)
    qed
    show ?thesis using IH m l False by (simp add: st)
  qed
qed

lemma sint_bounds64:
  fixes v :: "64 word"
  shows "- (2 ^ 63) \<le> sint v" "sint v < 2 ^ 63"
  using sint_ge[of v] sint_lt[of v] by simp_all

lemma uint_as_sint_mod:
  fixes v :: "64 word"
  shows "uint v = sint v mod 2 ^ 64"
  using uint_sint[of v] by (simp add: take_bit_eq_mod)

lemma uint_of_sint_nonneg:
  fixes v :: "64 word"
  assumes "\<not> sint v < 0"
  shows "uint v = sint v"
proof -
  have "0 \<le> sint v" "sint v < 2 ^ 64" using assms sint_bounds64(2)[of v] by simp_all
  then show ?thesis by (simp add: uint_as_sint_mod)
qed

lemma uint_neg_of_sint_neg:
  fixes v :: "64 word"
  assumes "sint v < 0"
  shows "uint (- v) = - sint v"
proof -
  have "uint (- v) = (- uint v) mod 2 ^ 64" by (simp add: uint_word_ariths)
  also have "\<dots> = (- (sint v mod 2 ^ 64)) mod 2 ^ 64" by (simp add: uint_as_sint_mod)
  also have "\<dots> = (- sint v) mod 2 ^ 64" by (simp add: mod_minus_eq)
  also have "\<dots> = - sint v"
    using assms sint_bounds64(1)[of v] by (intro mod_pos_pos_trivial) simp_all
  finally show ?thesis .
qed

lemma of_ll_correct: "wf_int2048 (of_ll v) \<and> value_of (of_ll v) = sint v"
proof -
  define x where "x = (if sint v < 0 then - v else v)"
  have ux: "uint x = \<bar>sint v\<bar>"
    using uint_neg_of_sint_neg[of v] uint_of_sint_nonneg[of v] by (simp add: x_def)
  from of_ll_loop_inv[of "[]" x]
  have ok: "digits_ok (of_ll_loop x [])" and m: "mag (of_ll_loop x []) = uint x"
    and l: "x \<noteq> 0 \<longrightarrow> of_ll_loop x [] \<noteq> [] \<and> last (of_ll_loop x []) \<noteq> 0"
    and z: "x = 0 \<longrightarrow> of_ll_loop x [] = []"
    by simp_all
  have e: "of_ll v = trim \<lparr>a = of_ll_loop x [], neg = sint v < 0\<rparr>"
    by (simp add: of_ll_def Let_def x_def)
  have w: "wf_int2048 (of_ll v)" unfolding e using ok by (intro trim_wf) simp
  have x0: "(x = 0) = (sint v = 0)" using ux by (simp add: uint_0_iff[symmetric] del: uint_0_iff)
  have "value_of (of_ll v) = sint v"
  proof (cases "x = 0")
    case True
    then have "of_ll v = zero_int2048"
      using z x0 by (simp add: e trim_def trim_loop.simps zero_int2048_def)
    with True x0 show ?thesis by (simp add: value_of_def)
  next
    case False
    then have "canonical \<lparr>a = of_ll_loop x [], neg = sint v < 0\<rparr>" using l by (simp add: canonical_def)
    then have "of_ll v = \<lparr>a = of_ll_loop x [], neg = sint v < 0\<rparr>" unfolding e by (rule trim_id)
    then show ?thesis using m ux by (simp add: value_of_def)
  qed
  with w show ?thesis by simp
qed

lemma of_ll_mag: "mag (a (of_ll v)) = uint (if sint v < 0 then - v else v)"
  using of_ll_loop_inv[of "[]" "if sint v < 0 then - v else v"]
  by (simp add: of_ll_def Let_def trim_a trim_loop_mag)

subsection \<open>The two output loops\<close>

declare show_nat.simps [simp del]

lemma print_loop_eq:
  "i \<le> length ds \<Longrightarrow> print_loop ds i out = out @ concat (map print_block (rev (take i ds)))"
proof (induction i arbitrary: out)
  case 0
  then show ?case by simp
next
  case (Suc i)
  then have "take (Suc i) ds = take i ds @ [ds ! i]" by (simp add: take_Suc_conv_app_nth)
  with Suc show ?case by (simp add: Let_def print_block_def)
qed

lemma shift_out_loop_eq:
  "i \<le> length ds \<Longrightarrow> shift_out_loop ds i out = out @ concat (map buf_block (rev (take i ds)))"
proof (induction i arbitrary: out)
  case 0
  then show ?case by simp
next
  case (Suc i)
  then have "take (Suc i) ds = take i ds @ [ds ! i]" by (simp add: take_Suc_conv_app_nth)
  with Suc show ?case by (simp add: Let_def buf_block_def)
qed

lemma show_nat_digit: "n < 10 \<Longrightarrow> show_nat n = [char_of (48 + n)]"
  by (subst show_nat.simps) simp

lemma show_int_digit: "0 \<le> d \<Longrightarrow> d < 10 \<Longrightarrow> show_int d = [char_of (48 + nat d)]"
  by (simp add: show_int_def show_nat_digit)

lemma char_of_digit_int: "0 \<le> d \<Longrightarrow> char_of (48 + d) = char_of (48 + nat d)"
proof -
  assume "0 \<le> d"
  then have "48 + d = int (48 + nat d)" by simp
  then show ?thesis by (simp only: char_of_nat)
qed

lemma digit_char_nonzero: "(n::nat) < 10 \<Longrightarrow> char_of (48 + n) \<noteq> CHR 0x00"
proof
  assume n: "n < 10" and "char_of (48 + n) = CHR 0x00"
  then have "(of_char (char_of (48 + n)) :: nat) = of_char (CHR 0x00)" by simp
  then have "(48 + n) mod 256 = 0" by simp
  with n show False by simp
qed

lemma replicate_small:
  "replicate 3 c = [c, c, c]" "replicate 2 c = [c, c]" "replicate 4 c = [c, c, c, c]"
  by (simp_all add: numeral_3_eq_3 numeral_2_eq_2 numeral_Bit0)

lemma four_Suc: "(4::nat) = Suc (Suc (Suc (Suc 0)))"
  by simp

lemma char_of_48: "char_of (48 :: nat) = CHR ''0''"
  by code_simp

lemma sdiv_10: "0 \<le> (x::int) \<Longrightarrow> x sdiv 10 = x div 10"
  by (simp add: signed_divide_int_def sgn_if)

lemma smod_10: "0 \<le> (x::int) \<Longrightarrow> x smod 10 = x mod 10"
  by (simp add: signed_modulo_int_def sgn_if)

lemma print_block_digits:
  assumes "0 \<le> v" "v < 10000"
  shows "print_block v = [char_of (48 + nat v div 1000), char_of (48 + nat v div 100 mod 10),
                          char_of (48 + nat v div 10 mod 10), char_of (48 + nat v mod 10)]"
proof -
  have s: "v sdiv 1000 = v div 1000" "v sdiv 100 = v div 100" "v sdiv 10 = v div 10" "v smod 10 = v mod 10"
    using assms by (simp_all add: signed_divide_int_def signed_modulo_int_def sgn_if)
  have t: "(v div 100) smod 10 = v div 100 mod 10" "(v div 10) smod 10 = v div 10 mod 10"
    using assms by (simp_all add: signed_modulo_int_def sgn_if pos_imp_zdiv_nonneg_iff)
  have n: "nat (v div 1000) = nat v div 1000" "nat (v div 100 mod 10) = nat v div 100 mod 10"
    "nat (v div 10 mod 10) = nat v div 10 mod 10" "nat (v mod 10) = nat v mod 10"
    using assms by (simp_all add: nat_div_distrib nat_mod_distrib)
  have "v div 1000 < 10" using assms by simp
  then show ?thesis
    using assms by (simp add: print_block_def s t show_int_digit n pos_imp_zdiv_nonneg_iff)
qed

lemma buf_block_digits:
  assumes "0 \<le> v" "v < 10000"
  shows "buf_block v = [char_of (48 + nat v div 1000), char_of (48 + nat v div 100 mod 10),
                        char_of (48 + nat v div 10 mod 10), char_of (48 + nat v mod 10)]"
proof -
  have e: "v div 10 div 10 = v div 100" "v div 100 div 10 = v div 1000"
    by (simp_all add: zdiv_zmult2_eq)
  have nn: "0 \<le> v div 10" "0 \<le> v div 100" "0 \<le> v div 1000"
    using assms by (simp_all add: pos_imp_zdiv_nonneg_iff)
  have d: "v sdiv 10 = v div 10" "v div 10 sdiv 10 = v div 100" "v div 100 sdiv 10 = v div 1000"
    using assms nn e by (simp_all add: sdiv_10)
  have "v div 1000 < 10" using assms by simp
  then have m: "v smod 10 = v mod 10" "v div 10 smod 10 = v div 10 mod 10"
    "v div 100 smod 10 = v div 100 mod 10" "v div 1000 smod 10 = v div 1000"
    using assms nn by (simp_all add: smod_10)
  have f: "fill_buf 4 v (replicate 4 (CHR 0x00))
      = [char_of (48 + v div 1000), char_of (48 + v div 100 mod 10),
         char_of (48 + v div 10 mod 10), char_of (48 + v mod 10)]"
    unfolding four_Suc by (simp add: d m)
  have n: "nat (v div 1000) = nat v div 1000" "nat (v div 100 mod 10) = nat v div 100 mod 10"
    "nat (v div 10 mod 10) = nat v div 10 mod 10" "nat (v mod 10) = nat v mod 10"
    using assms by (simp_all add: nat_div_distrib nat_mod_distrib)
  have c: "char_of (48 + v div 1000) = char_of (48 + nat v div 1000)"
    "char_of (48 + v div 100 mod 10) = char_of (48 + nat v div 100 mod 10)"
    "char_of (48 + v div 10 mod 10) = char_of (48 + nat v div 10 mod 10)"
    "char_of (48 + v mod 10) = char_of (48 + nat v mod 10)"
    using assms char_of_digit_int[of "v div 1000"] char_of_digit_int[of "v div 100 mod 10"]
      char_of_digit_int[of "v div 10 mod 10"] char_of_digit_int[of "v mod 10"]
    by (simp_all add: n pos_imp_zdiv_nonneg_iff)
  have "nat v div 1000 < 10" using assms by simp
  then show ?thesis
    unfolding buf_block_def f c by (simp add: digit_char_nonzero)
qed

lemma pad4_digits:
  assumes "n < 10000"
  shows "pad4 n = [char_of (48 + n div 1000), char_of (48 + n div 100 mod 10),
                   char_of (48 + n div 10 mod 10), char_of (48 + n mod 10)]"
proof -
  note z = char_of_48
  consider (a) "n < 10" | (b) "10 \<le> n" "n < 100" | (c) "100 \<le> n" "n < 1000" | (d) "1000 \<le> n"
    by linarith
  then show ?thesis
  proof cases
    case a
    then show ?thesis by (simp add: pad4_def show_nat_digit z replicate_small)
  next
    case b
    then have "show_nat n = [char_of (48 + n div 10), char_of (48 + n mod 10)]"
      by (subst show_nat.simps) (simp add: show_nat_digit)
    with b show ?thesis by (simp add: pad4_def z replicate_small)
  next
    case c
    then have 1: "show_nat n = show_nat (n div 10) @ [char_of (48 + n mod 10)]"
      by (subst show_nat.simps) simp
    have 2: "show_nat (n div 10) = [char_of (48 + n div 10 div 10), char_of (48 + n div 10 mod 10)]"
      using c by (subst show_nat.simps) (simp add: show_nat_digit)
    have sn: "show_nat n = [char_of (48 + n div 10 div 10), char_of (48 + n div 10 mod 10),
                            char_of (48 + n mod 10)]"
      by (simp add: 1 2)
    have "n div 10 div 10 = n div 100" by (simp add: div_mult2_eq)
    moreover have "n div 100 mod 10 = n div 100" using c by simp
    ultimately show ?thesis using c unfolding pad4_def sn by (simp add: z)
  next
    case d
    have 1: "show_nat n = show_nat (n div 10) @ [char_of (48 + n mod 10)]"
      using d by (subst show_nat.simps) simp
    have g: "\<not> n div 10 < 10" "\<not> n div 10 div 10 < 10" "n div 10 div 10 div 10 < 10"
      using d assms by arith+
    have 2: "show_nat (n div 10) = show_nat (n div 10 div 10) @ [char_of (48 + n div 10 mod 10)]"
      using g by (subst show_nat.simps) simp
    have 3: "show_nat (n div 10 div 10) = [char_of (48 + n div 10 div 10 div 10), char_of (48 + n div 10 div 10 mod 10)]"
      using g by (subst show_nat.simps) (simp add: show_nat_digit)
    have sn: "show_nat n = [char_of (48 + n div 10 div 10 div 10), char_of (48 + n div 10 div 10 mod 10),
                            char_of (48 + n div 10 mod 10), char_of (48 + n mod 10)]"
      by (simp add: 1 2 3)
    have "n div 10 div 10 = n div 100" "n div 10 div 10 div 10 = n div 1000" by (simp_all add: div_mult2_eq)
    then show ?thesis unfolding pad4_def sn by simp
  qed
qed

lemma pad4_length: "n < 10000 \<Longrightarrow> length (pad4 n) = 4"
  by (simp add: pad4_digits)

lemma blocks_agree:
  assumes "0 \<le> v" "v < BASE"
  shows "print_block v = pad4 (nat v)" "buf_block v = pad4 (nat v)"
  using assms print_block_digits[of v] buf_block_digits[of v] pad4_digits[of "nat v"]
  by (simp_all add: BASE_def)

lemma map_blocks_agree:
  assumes "digits_ok ds"
  shows "map print_block ds = map (\<lambda>v. pad4 (nat v)) ds" "map buf_block ds = map (\<lambda>v. pad4 (nat v)) ds"
  using assms by (induction ds) (simp_all add: blocks_agree)

lemma print_correct:
  assumes "wf_int2048 x"
  shows "print x = format_spec x" "shift_out x = format_spec x"
proof -
  have ok: "digits_ok (a x)" using assms by (simp add: wf_int2048_def)
  have "print x = format_spec x \<and> shift_out x = format_spec x"
  proof (cases "a x = []")
    case True
    then show ?thesis
      by (simp add: print_def shift_out_def is_zero_def format_spec_def show_int_def show_nat_digit char_of_48)
  next
    case False
    then have i: "length (a x) - 1 \<le> length (a x)" and l: "a x ! (length (a x) - 1) = last (a x)"
      by (simp_all add: last_conv_nth)
    have t: "take (length (a x) - 1) (a x) = butlast (a x)" by (simp add: butlast_conv_take)
    have okb: "digits_ok (rev (butlast (a x)))"
      using digits_ok_butlast[OF ok] by (simp add: digits_ok_def)
    have "last (a x) \<in> set (a x)" using False by simp
    then have "0 \<le> last (a x)" using ok by (simp add: digits_ok_def list_all_iff)
    then have top: "show_int (last (a x)) = show_nat (nat (last (a x)))" by (simp add: show_int_def)
    have pl: "print_loop (a x) (length (a x) - 1) out
                = out @ concat (map (\<lambda>v. pad4 (nat v)) (rev (butlast (a x))))" for out
      using print_loop_eq[OF i, of out] unfolding t map_blocks_agree(1)[OF okb] .
    have sl: "shift_out_loop (a x) (length (a x) - 1) out
                = out @ concat (map (\<lambda>v. pad4 (nat v)) (rev (butlast (a x))))" for out
      using shift_out_loop_eq[OF i, of out] unfolding t map_blocks_agree(2)[OF okb] .
    show ?thesis
      using False
      by (simp add: print_def shift_out_def is_zero_def format_spec_def Let_def pl sl l top
          del: One_nat_def)
  qed
  then show "print x = format_spec x" "shift_out x = format_spec x" by simp_all
qed

subsection \<open>Multiplication stays inside its vector\<close>

declare mul_inner.simps [simp del] mul_outer.simps [simp del]

lemma mul_inner_step:
  "j < length ys \<or> carry \<noteq> 0 \<Longrightarrow> i + j < length rs \<Longrightarrow>
   mul_inner xi ys i j carry rs =
     mul_inner xi ys i (Suc j) ((rs ! (i + j) + carry + xi * dg ys j) sdiv BASE)
       (rs[i + j := (rs ! (i + j) + carry + xi * dg ys j) smod BASE])"
  by (subst mul_inner.simps) (auto simp: dg_def Let_def)

lemma mul_inner_stop: "\<not> (j < length ys \<or> carry \<noteq> 0) \<Longrightarrow> mul_inner xi ys i j carry rs = Some rs"
  by (subst mul_inner.simps) simp

lemma mul_step_arith:
  fixes P :: int
  assumes "dm + B * dv = r0 + c + xi * y"
  shows "P * (dm - r0) + (P * B) * (dv + xi * M) = P * (c + xi * (y + B * M))"
proof -
  have "P * (dm - r0) + (P * B) * (dv + xi * M) = P * ((dm + B * dv) - r0 + B * (xi * M))"
    by (simp add: algebra_simps)
  also have "\<dots> = P * ((r0 + c + xi * y) - r0 + B * (xi * M))" by (simp only: assms)
  also have "\<dots> = P * (c + xi * (y + B * M))" by (simp add: algebra_simps)
  finally show ?thesis .
qed

lemma mul_inner_total:
  "0 \<le> xi \<Longrightarrow> xi < BASE \<Longrightarrow> digits_ok ys \<Longrightarrow> digits_ok rs \<Longrightarrow> i + length ys < length rs \<Longrightarrow>
   (\<forall>k. i + length ys \<le> k \<and> k < length rs \<longrightarrow> rs ! k = 0) \<Longrightarrow>
   j \<le> length ys \<Longrightarrow> 0 \<le> carry \<Longrightarrow> carry < BASE \<Longrightarrow>
   \<exists>rs'. mul_inner xi ys i j carry rs = Some rs' \<and> length rs' = length rs \<and> digits_ok rs'
         \<and> (\<forall>k. Suc (i + length ys) \<le> k \<and> k < length rs \<longrightarrow> rs' ! k = 0)
         \<and> mag rs' = mag rs + BASE ^ (i + j) * (carry + xi * mag (drop j ys))"
proof (induction n \<equiv> "length ys - j" arbitrary: j carry rs)
  case 0
  then have j: "j = length ys" by simp
  show ?case
  proof (cases "carry = 0")
    case True
    then show ?thesis using 0 j by (simp add: mul_inner_stop)
  next
    case False
    have z: "rs ! (i + j) = 0" using 0(6,7) j by simp
    have c: "carry sdiv BASE = 0" "carry smod BASE = carry"
      using 0 by (simp_all add: sdiv_nonneg smod_nonneg)
    have "mul_inner xi ys i j carry rs = mul_inner xi ys i (Suc j) 0 (rs[i + j := carry])"
      using mul_inner_step[of j ys carry i rs xi] False 0 j by (simp add: z dg_def c)
    also have "\<dots> = Some (rs[i + j := carry])" using j by (simp add: mul_inner_stop)
    finally have r: "mul_inner xi ys i j carry rs = Some (rs[i + j := carry])" .
    have ij: "i + j < length rs" using 0 j by simp
    have m: "mag (rs[i + j := carry]) = mag rs + BASE ^ (i + j) * (carry + xi * mag (drop j ys))"
      using mag_update[OF ij, of carry] z j by simp
    show ?thesis unfolding r using 0 j m by (auto simp: digits_ok_update)
  qed
next
  case (Suc n)
  then have j: "j < length ys" by simp
  define cur where "cur = rs ! (i + j) + carry + xi * dg ys j"
  have ij: "i + j < length rs" using Suc.prems j by simp
  have r: "0 \<le> rs ! (i + j)" "rs ! (i + j) \<le> BASE - 1"
    using digits_ok_nth[OF Suc.prems(4) ij] by auto
  have y: "0 \<le> dg ys j" "dg ys j \<le> BASE - 1" using dg_range[OF Suc.prems(3), of j] by auto
  have p0: "0 \<le> xi * dg ys j" using Suc.prems(1) y by simp
  have "xi * dg ys j \<le> (BASE - 1) * (BASE - 1)" using Suc.prems(1,2) y by (intro mult_mono) auto
  moreover have "(BASE - 1) * (BASE - 1) = BASE * BASE - 2 * BASE + 1" by (simp add: algebra_simps)
  ultimately have lt: "cur < BASE * BASE" using r Suc.prems(9) unfolding cur_def by linarith
  have cur0: "0 \<le> cur" using r p0 Suc.prems(8) by (simp add: cur_def)
  have d: "cur smod BASE = cur mod BASE" "cur sdiv BASE = cur div BASE"
    using cur0 by (simp_all add: sdiv_nonneg smod_nonneg)
  have dr: "0 \<le> cur mod BASE" "cur mod BASE < BASE" using BASE_pos by simp_all
  have c0: "0 \<le> cur div BASE" using cur0 BASE_pos by (simp add: pos_imp_zdiv_nonneg_iff)
  have c1: "cur div BASE < BASE" using BASE_pos lt by (rule div_less_of_less_square)
  define rs2 where "rs2 = rs[i + j := cur mod BASE]"
  have st: "mul_inner xi ys i j carry rs = mul_inner xi ys i (Suc j) (cur div BASE) rs2"
    using mul_inner_step[of j ys carry i rs xi] j ij by (simp add: cur_def[symmetric] d rs2_def)
  have ok2: "digits_ok rs2" unfolding rs2_def using Suc.prems(4) dr by (rule digits_ok_update)
  have len2: "length rs2 = length rs" by (simp add: rs2_def)
  have z2: "\<forall>k. i + length ys \<le> k \<and> k < length rs2 \<longrightarrow> rs2 ! k = 0"
    using Suc.prems(6) j by (simp add: rs2_def)
  have n: "n = length ys - Suc j" using Suc.hyps(2) by simp
  have b2: "i + length ys < length rs2" using Suc.prems(5) len2 by simp
  have j2: "Suc j \<le> length ys" using j by simp
  from Suc.hyps(1)[OF n Suc.prems(1,2,3) ok2 b2 z2 j2 c0 c1]
  obtain rs' where r: "mul_inner xi ys i (Suc j) (cur div BASE) rs2 = Some rs'" "length rs' = length rs"
    "digits_ok rs'" "\<forall>k. Suc (i + length ys) \<le> k \<and> k < length rs \<longrightarrow> rs' ! k = 0"
    "mag rs' = mag rs2 + BASE ^ (i + Suc j) * (cur div BASE + xi * mag (drop (Suc j) ys))"
    unfolding len2 by blast
  have m2: "mag rs2 = mag rs + BASE ^ (i + j) * (cur mod BASE - rs ! (i + j))"
    unfolding rs2_def by (rule mag_update[OF ij])
  have md: "mag (drop j ys) = dg ys j + BASE * mag (drop (Suc j) ys)" by (rule mag_drop)
  have e: "cur mod BASE + BASE * (cur div BASE) = rs ! (i + j) + carry + xi * dg ys j"
    by (simp add: cur_def)
  have p: "BASE ^ (i + Suc j) = BASE ^ (i + j) * BASE" by simp
  have m: "mag rs' = mag rs + BASE ^ (i + j) * (carry + xi * mag (drop j ys))"
    unfolding r(5) m2 md p using mul_step_arith[OF e, of "BASE ^ (i + j)" "mag (drop (Suc j) ys)"]
    by simp
  show ?case unfolding st using r(1,2,3,4) m by blast
qed

lemma mul_outer_step:
  "i < length xs \<Longrightarrow> mul_outer xs ys i rs =
     (case mul_inner (xs ! i) ys i 0 0 rs of None \<Rightarrow> None | Some rs' \<Rightarrow> mul_outer xs ys (Suc i) rs')"
  by (subst mul_outer.simps) simp

lemma mul_outer_stop: "\<not> i < length xs \<Longrightarrow> mul_outer xs ys i rs = Some rs"
  by (subst mul_outer.simps) simp

lemma mul_outer_total:
  "digits_ok xs \<Longrightarrow> digits_ok ys \<Longrightarrow> digits_ok rs \<Longrightarrow> length rs = length xs + length ys \<Longrightarrow>
   i \<le> length xs \<Longrightarrow> (\<forall>k. i + length ys \<le> k \<and> k < length rs \<longrightarrow> rs ! k = 0) \<Longrightarrow>
   \<exists>rs'. mul_outer xs ys i rs = Some rs' \<and> length rs' = length rs \<and> digits_ok rs'
         \<and> mag rs' = mag rs + BASE ^ i * (mag (drop i xs) * mag ys)"
proof (induction n \<equiv> "length xs - i" arbitrary: i rs)
  case 0
  then show ?case by (simp add: mul_outer_stop)
next
  case (Suc n)
  then have i: "i < length xs" by simp
  have x: "0 \<le> xs ! i" "xs ! i < BASE" using digits_ok_nth[OF Suc.prems(1) i] by auto
  have b: "i + length ys < length rs" using i Suc.prems(4) by simp
  from mul_inner_total[OF x Suc.prems(2,3) b Suc.prems(6), of 0 0] BASE_pos
  obtain rs1 where r1: "mul_inner (xs ! i) ys i 0 0 rs = Some rs1" "length rs1 = length rs"
    "digits_ok rs1" "\<forall>k. Suc (i + length ys) \<le> k \<and> k < length rs \<longrightarrow> rs1 ! k = 0"
    "mag rs1 = mag rs + BASE ^ i * (xs ! i * mag ys)"
    by auto
  have n: "n = length xs - Suc i" using Suc.hyps(2) by simp
  have l1: "length rs1 = length xs + length ys" using r1(2) Suc.prems(4) by simp
  have z1: "\<forall>k. Suc i + length ys \<le> k \<and> k < length rs1 \<longrightarrow> rs1 ! k = 0" using r1(2,4) by simp
  have i1: "Suc i \<le> length xs" using i by simp
  from Suc.hyps(1)[OF n Suc.prems(1,2) r1(3) l1 i1 z1]
  obtain rs' where r: "mul_outer xs ys (Suc i) rs1 = Some rs'" "length rs' = length rs1"
    "digits_ok rs'" "mag rs' = mag rs1 + BASE ^ Suc i * (mag (drop (Suc i) xs) * mag ys)"
    by blast
  have md: "mag (drop i xs) = xs ! i + BASE * mag (drop (Suc i) xs)"
    using mag_drop[of i xs] i by (simp add: dg_def)
  have m: "mag rs' = mag rs + BASE ^ i * (mag (drop i xs) * mag ys)"
    unfolding r(4) r1(5) md by (simp add: algebra_simps)
  have "mul_outer xs ys i rs = Some rs'" using r1(1) r(1) i by (simp add: mul_outer_step)
  then show ?case using r(2,3) r1(2) m by simp
qed

lemma mul_simple_total:
  assumes "digits_ok (a x)" "digits_ok (a y)"
  shows "\<exists>r. mul_simple x y = Some r \<and> wf_int2048 r \<and> \<not> neg r
             \<and> mag (a r) = mag (a x) * mag (a y)"
proof (cases "is_zero x \<or> is_zero y")
  case True
  then have "mag (a x) * mag (a y) = 0" by (auto simp: is_zero_def)
  then show ?thesis using True wf_zero by (simp add: mul_simple_def)
next
  case False
  from mul_outer_total[OF assms, of "replicate (length (a x) + length (a y)) 0" 0]
  obtain rs where rs: "mul_outer (a x) (a y) 0 (replicate (length (a x) + length (a y)) 0) = Some rs"
    "digits_ok rs" "mag rs = mag (a x) * mag (a y)" by auto
  have "mul_simple x y = Some ((trim \<lparr>a = rs, neg = False\<rparr>)\<lparr>neg := False\<rparr>)"
    using False rs(1) by (simp add: mul_simple_def)
  moreover have "wf_int2048 (trim \<lparr>a = rs, neg = False\<rparr>)" using rs(2) by (intro trim_wf) simp
  moreover have "mag (a (trim \<lparr>a = rs, neg = False\<rparr>)) = mag (a x) * mag (a y)"
    using rs(3) by (simp add: trim_a trim_loop_mag)
  ultimately show ?thesis by (simp add: wf_int2048_def canonical_def)
qed

lemma mul_op_total:
  assumes "wf_int2048 x" "wf_int2048 y"
  shows "\<exists>r. mul_op x y = Some r \<and> wf_int2048 r \<and> value_of r = value_of x * value_of y"
proof -
  have "digits_ok (a (x\<lparr>neg := False\<rparr>))" "digits_ok (a (y\<lparr>neg := False\<rparr>))"
    using assms by (simp_all add: wf_int2048_def)
  from mul_simple_total[OF this] obtain r where
    r: "mul_simple (x\<lparr>neg := False\<rparr>) (y\<lparr>neg := False\<rparr>) = Some r" "wf_int2048 r"
       "mag (a r) = mag (a x) * mag (a y)" by auto
  have "mul_op x y = Some (r\<lparr>neg := (neg x \<noteq> neg y) \<and> \<not> is_zero r\<rparr>)"
    using r(1) by (simp add: mul_op_def mul_fft_def Let_def)
  moreover have "wf_int2048 (r\<lparr>neg := (neg x \<noteq> neg y) \<and> \<not> is_zero r\<rparr>)"
    using r(2) by (auto simp: wf_int2048_def canonical_def is_zero_def)
  moreover have "value_of (r\<lparr>neg := (neg x \<noteq> neg y) \<and> \<not> is_zero r\<rparr>) = value_of x * value_of y"
    using r(3) wf_mag_0[OF r(2)] by (auto simp: value_of_def is_zero_def)
  ultimately show ?thesis by simp
qed

subsection \<open>What read returns is well formed\<close>

declare read_block.simps [simp del] read_blocks.simps [simp del]
  skip_space.simps [simp del] last_digit.simps [simp del]

lemma digit_val_range: "is_digit c \<Longrightarrow> 0 \<le> (of_char c :: int) - 48 \<and> (of_char c :: int) - 48 \<le> 9"
proof -
  assume d: "is_digit c"
  have "(of_char c :: int) = int (of_char c)" by (rule of_nat_of_char[symmetric])
  with d show ?thesis unfolding is_digit_def by linarith
qed

lemma read_block_step:
  "t \<le> p \<Longrightarrow> read_block s t p val =
     read_block s (t + 1) p (if is_digit (s ! nat t) then val * 10 + (of_char (s ! nat t) - 48) else val)"
  by (subst read_block.simps) simp

lemma read_block_stop: "\<not> t \<le> p \<Longrightarrow> read_block s t p val = val"
  by (subst read_block.simps) simp

lemma read_block_bound:
  "0 \<le> val \<Longrightarrow> 0 \<le> read_block s t p val \<and> read_block s t p val + 1 \<le> (val + 1) * 10 ^ nat (p - t + 1)"
proof (induction k \<equiv> "nat (p - t + 1)" arbitrary: t val)
  case 0
  then have "\<not> t \<le> p" by simp
  with 0 show ?case by (simp add: read_block_stop)
next
  case (Suc k)
  then have le: "t \<le> p" by simp
  define val' where "val' = (if is_digit (s ! nat t) then val * 10 + (of_char (s ! nat t) - 48) else val)"
  have v0: "0 \<le> val'" using Suc.prems digit_val_range[of "s ! nat t"] by (simp add: val'_def)
  have v1: "val' + 1 \<le> (val + 1) * 10"
    using Suc.prems digit_val_range[of "s ! nat t"] by (auto simp: val'_def)
  have k: "k = nat (p - (t + 1) + 1)" using Suc.hyps(2) by simp
  from Suc.hyps(1)[OF k v0]
  have IH: "0 \<le> read_block s (t + 1) p val'"
    "read_block s (t + 1) p val' + 1 \<le> (val' + 1) * 10 ^ k" unfolding k[symmetric] by simp_all
  have "(val' + 1) * 10 ^ k \<le> ((val + 1) * 10) * 10 ^ k"
    using v1 by (intro mult_right_mono) simp_all
  also have "\<dots> = (val + 1) * 10 ^ Suc k" by simp
  finally have "read_block s (t + 1) p val' + 1 \<le> (val + 1) * 10 ^ Suc k" using IH(2) by linarith
  with IH(1) show ?case
    unfolding read_block_step[OF le] val'_def[symmetric] Suc.hyps(2)[symmetric] by simp
qed

lemma read_blocks_step:
  "i \<le> p \<Longrightarrow> read_blocks s i p ds =
     read_blocks s i (p - 4) (ds @ [read_block s (if p - 3 < i then i else p - 3) p 0])"
  by (subst read_blocks.simps) (simp add: BASE_DIGS_def Let_def)

lemma read_blocks_stop: "\<not> i \<le> p \<Longrightarrow> read_blocks s i p ds = ds"
  by (subst read_blocks.simps) simp

lemma read_blocks_ok: "digits_ok ds \<Longrightarrow> digits_ok (read_blocks s i p ds)"
proof (induction k \<equiv> "nat (p - i + 1)" arbitrary: p ds rule: less_induct)
  case less
  show ?case
  proof (cases "i \<le> p")
    case False
    then show ?thesis using less.prems by (simp add: read_blocks_stop)
  next
    case True
    define l where "l = (if p - 3 < i then i else p - 3)"
    define val where "val = read_block s l p 0"
    have n: "nat (p - l + 1) \<le> 4" using True by (auto simp: l_def)
    from read_block_bound[of 0 s l p]
    have v: "0 \<le> val" "val + 1 \<le> 10 ^ nat (p - l + 1)" by (simp_all add: val_def)
    have "(10::int) ^ nat (p - l + 1) \<le> 10 ^ 4" using n by (intro power_increasing) simp_all
    with v have "val < BASE" by (simp add: BASE_def)
    with v have ok: "digits_ok (ds @ [val])" using less.prems by simp
    have m: "nat (p - 4 - i + 1) < nat (p - i + 1)" using True by simp
    from less.hyps[OF m ok] show ?thesis
      unfolding read_blocks_step[OF True] l_def[symmetric] val_def[symmetric] .
  qed
qed

lemma read_wf: "wf_int2048 (read s)"
proof -
  have w: "wf_int2048 (if is_zero r then r\<lparr>neg := False\<rparr> else r)" if "wf_int2048 r" for r
    using that by (simp add: wf_int2048_def canonical_def)
  have t: "wf_int2048 (trim \<lparr>a = read_blocks s i e [], neg = ng\<rparr>)" for i e ng
    by (intro trim_wf) (simp add: read_blocks_ok)
  have z: "wf_int2048 \<lparr>a = [], neg = False\<rparr>" using wf_zero by (simp add: zero_int2048_def)
  show ?thesis
    unfolding read_def Let_def using w[OF t] z by (simp split: prod.splits)
qed

subsection \<open>The signed operations keep the representation well formed\<close>

lemma sub_abs_signed_wf:
  assumes "wf_int2048 x" "wf_int2048 y" "mag (a y) < mag (a x)"
  shows "wf_int2048 ((sub_abs x y)\<lparr>neg := s\<rparr>)"
proof -
  have ox: "digits_ok (a x)" and oy: "digits_ok (a y)" using assms by (simp_all add: wf_int2048_def)
  have w: "wf_int2048 (sub_abs x y)" by (rule sub_abs_wf[OF ox oy])
  have "mag (a (sub_abs x y)) = mag (a x) - mag (a y)"
    using sub_abs_mag_wf[OF assms(1,2)] assms(3) by simp
  with assms(3) have "a (sub_abs x y) \<noteq> []" by auto
  with w show ?thesis by (simp add: wf_int2048_def canonical_def)
qed

lemma add_abs_signed_wf:
  assumes "wf_int2048 x" "wf_int2048 y"
  shows "wf_int2048 ((add_abs x y)\<lparr>neg := s \<and> \<not> is_zero (add_abs x y)\<rparr>)"
  using add_abs_wf[OF assms] by (auto simp: wf_int2048_def canonical_def is_zero_def)

lemma add_wf:
  assumes "wf_int2048 x" "wf_int2048 b"
  shows "wf_int2048 (add x b)"
proof -
  note c = abs_compare_eq0[OF assms] abs_compare_gt0[OF assms]
  have z: "wf_int2048 (x\<lparr>a := [], neg := False\<rparr>)" by (simp add: wf_int2048_def canonical_def)
  show ?thesis
  proof (cases "neg x = neg b")
    case True
    then show ?thesis using add_abs_signed_wf[OF assms] by (simp add: add_def Let_def)
  next
    case False
    consider (e) "mag (a x) = mag (a b)" | (g) "mag (a b) < mag (a x)" | (l) "mag (a x) < mag (a b)"
      by linarith
    then show ?thesis
    proof cases
      case e
      with False c z show ?thesis by (simp add: add_def Let_def)
    next
      case g
      with False c sub_abs_signed_wf[OF assms g] show ?thesis by (simp add: add_def Let_def)
    next
      case l
      with False c sub_abs_signed_wf[OF assms(2,1) l] show ?thesis by (simp add: add_def Let_def)
    qed
  qed
qed

lemma minus_op_wf:
  assumes "wf_int2048 x" "wf_int2048 b"
  shows "wf_int2048 (minus_op x b)"
proof -
  note c = abs_compare_eq0[OF assms] abs_compare_gt0[OF assms]
  have z: "wf_int2048 (x\<lparr>a := [], neg := False\<rparr>)" by (simp add: wf_int2048_def canonical_def)
  show ?thesis
  proof (cases "neg x \<noteq> neg b")
    case True
    then show ?thesis using add_abs_signed_wf[OF assms] by (simp add: minus_op_def Let_def)
  next
    case False
    consider (e) "mag (a x) = mag (a b)" | (g) "mag (a b) < mag (a x)" | (l) "mag (a x) < mag (a b)"
      by linarith
    then show ?thesis
    proof cases
      case e
      with False c z show ?thesis by (simp add: minus_op_def Let_def)
    next
      case g
      with False c sub_abs_signed_wf[OF assms g] show ?thesis by (simp add: minus_op_def Let_def)
    next
      case l
      with False c sub_abs_signed_wf[OF assms(2,1) l] show ?thesis by (simp add: minus_op_def Let_def)
    qed
  qed
qed

lemma uminus_op_wf: "wf_int2048 x \<Longrightarrow> wf_int2048 (uminus_op x)"
  by (auto simp: uminus_op_def wf_int2048_def canonical_def is_zero_def)

lemma div_op_wf:
  assumes "wf_int2048 x" "wf_int2048 b"
  shows "wf_int2048 (div_op x b)"
proof (cases "is_zero b")
  case True
  then show ?thesis using wf_is_zero[OF assms(2)] div_op_zero wf_zero by simp
next
  case False
  obtain qa ra where "divmod_abs (x\<lparr>neg := False\<rparr>) (b\<lparr>neg := False\<rparr>) = (qa, ra)"
    by (cases "divmod_abs (x\<lparr>neg := False\<rparr>) (b\<lparr>neg := False\<rparr>)")
  from div_op_correct(1)[OF assms False this] show ?thesis .
qed

lemma mod_op_wf:
  assumes "wf_int2048 x" "wf_int2048 b"
  shows "\<exists>r. mod_op x b = Some r \<and> wf_int2048 r"
proof -
  have wq: "wf_int2048 (div_op x b)" by (rule div_op_wf[OF assms])
  from mul_op_total[OF wq assms(2)] obtain prd where
    p: "mul_op (div_op x b) b = Some prd" "wf_int2048 prd" by auto
  note c = abs_compare_eq0[OF assms(1) p(2)] abs_compare_gt0[OF assms(1) p(2)]
  have z: "wf_int2048 (x\<lparr>a := [], neg := False\<rparr>)" by (simp add: wf_int2048_def canonical_def)
  have ox: "digits_ok (a x)" and op: "digits_ok (a prd)" using assms p by (simp_all add: wf_int2048_def)
  have r1: "wf_int2048 (add_abs x prd)" by (rule add_abs_wf[OF assms(1) p(2)])
  have r2: "wf_int2048 (sub_abs x prd)" by (rule sub_abs_wf[OF ox op])
  have r3: "mag (a x) < mag (a prd) \<Longrightarrow> wf_int2048 ((sub_abs prd x)\<lparr>neg := \<not> neg prd\<rparr>)"
    by (rule sub_abs_signed_wf[OF p(2) assms(1)])
  have e: "r\<lparr>neg := neg r\<rparr> = r" for r :: int2048 by simp
  consider (e) "mag (a x) = mag (a prd)" | (g) "mag (a prd) < mag (a x)" | (l) "mag (a x) < mag (a prd)"
    by linarith
  then have w: "wf_int2048 (if neg x \<noteq> neg prd then add_abs x prd
                else (if abs_compare x prd = 0 then x\<lparr>a := [], neg := False\<rparr>
                      else if abs_compare x prd > 0 then sub_abs x prd
                      else (sub_abs prd x)\<lparr>neg := \<not> neg prd\<rparr>))"
    using c z r1 r2 r3 by cases auto
  have eq: "mod_op x b = Some (if neg x \<noteq> neg prd then add_abs x prd
                else (if abs_compare x prd = 0 then x\<lparr>a := [], neg := False\<rparr>
                      else if abs_compare x prd > 0 then sub_abs x prd
                      else (sub_abs prd x)\<lparr>neg := \<not> neg prd\<rparr>))"
    using p(1) by (simp add: mod_op_def Let_def e)
  show ?thesis unfolding eq by (intro exI conjI) (rule refl, rule w)
qed

subsection \<open>Segments of the input string\<close>

lemma segi_empty: "p < t \<Longrightarrow> segi s t p = []"
  by (simp add: segi_def)

lemma segi_length: "0 \<le> t \<Longrightarrow> t \<le> p + 1 \<Longrightarrow> p < int (length s) \<Longrightarrow> length (segi s t p) = nat (p - t + 1)"
  by (auto simp: segi_def)

lemma segi_split:
  assumes "0 \<le> t" "t \<le> q + 1" "q \<le> p"
  shows "segi s t p = segi s t q @ segi s (q + 1) p"
proof -
  have n: "nat (p - t + 1) = nat (q - t + 1) + nat (p - (q + 1) + 1)" using assms by linarith
  have d: "nat (q - t + 1) + nat t = nat (q + 1)" using assms by linarith
  show ?thesis unfolding segi_def n take_add by (simp add: d)
qed

lemma segi_single: "0 \<le> t \<Longrightarrow> t < int (length s) \<Longrightarrow> segi s t t = [s ! nat t]"
proof -
  assume t: "0 \<le> t" "t < int (length s)"
  then have "nat t < length s" by linarith
  then have "drop (nat t) s = s ! nat t # drop (Suc (nat t)) s" by (simp add: Cons_nth_drop_Suc)
  then show ?thesis by (simp add: segi_def)
qed

lemma segi_first:
  assumes "0 \<le> t" "t \<le> p" "p < int (length s)"
  shows "segi s t p = s ! nat t # segi s (t + 1) p"
  using segi_split[of t t p s] segi_single[of t s] assms by simp

lemma segi_last:
  assumes "0 \<le> t" "t \<le> p" "p < int (length s)"
  shows "segi s t p = segi s t (p - 1) @ [s ! nat p]"
  using segi_split[of t "p - 1" p s] segi_single[of p s] assms by simp

lemma segi_all: "0 \<le> t \<Longrightarrow> segi s t (int (length s) - 1) = drop (nat t) s"
  by (simp add: segi_def)

subsection \<open>The inner loop on a segment\<close>

lemma read_block_foldl:
  "0 \<le> t \<Longrightarrow> t \<le> p + 1 \<Longrightarrow> p < int (length s) \<Longrightarrow>
   read_block s t p val
   = foldl (\<lambda>v c. v * 10 + (of_char c - 48)) val (filter is_digit (segi s t p))"
proof (induction k \<equiv> "nat (p - t + 1)" arbitrary: t val)
  case 0
  then have "p < t" by simp
  then show ?case by (simp add: read_block_stop segi_empty)
next
  case (Suc k)
  then have le: "t \<le> p" by simp
  note f = segi_first[OF Suc.prems(1) le Suc.prems(3)]
  have k: "k = nat (p - (t + 1) + 1)" using Suc.hyps(2) by simp
  have IH: "read_block s (t + 1) p v
            = foldl (\<lambda>v c. v * 10 + (of_char c - 48)) v (filter is_digit (segi s (t + 1) p))" for v
    by (rule Suc.hyps(1)[OF k _ _ Suc.prems(3)]) (use Suc.prems le in simp_all)
  show ?case unfolding read_block_step[OF le] f IH by simp
qed

lemma foldl_dec_shift:
  "foldl (\<lambda>v c. v * 10 + (of_char c - 48)) val cs = val * 10 ^ length cs + dec_value cs"
proof (induction cs arbitrary: val)
  case Nil
  then show ?case by (simp add: dec_value_def)
next
  case (Cons c cs)
  let ?f = "\<lambda>v c. v * 10 + ((of_char c :: int) - 48)"
  let ?d = "(of_char c :: int) - 48"
  have 1: "foldl ?f val (c # cs) = (val * 10 + ?d) * 10 ^ length cs + dec_value cs"
    using Cons[of "val * 10 + ?d"] by simp
  have "dec_value (c # cs) = foldl ?f ?d cs" by (simp add: dec_value_def)
  also have "\<dots> = ?d * 10 ^ length cs + dec_value cs" by (rule Cons)
  finally have 2: "dec_value (c # cs) = ?d * 10 ^ length cs + dec_value cs" .
  show ?case unfolding 1 2 by (simp add: algebra_simps)
qed

lemma dec_value_append: "dec_value (xs @ ys) = dec_value xs * 10 ^ length ys + dec_value ys"
proof -
  have "dec_value (xs @ ys) = foldl (\<lambda>v c. v * 10 + (of_char c - 48)) (dec_value xs) ys"
    by (simp add: dec_value_def)
  then show ?thesis by (simp only: foldl_dec_shift)
qed

lemma dec_value_Nil: "dec_value [] = 0"
  by (simp add: dec_value_def)

lemma dec_value_Cons: "dec_value (c # cs) = (of_char c - 48) * 10 ^ length cs + dec_value cs"
  using dec_value_append[of "[c]" cs] by (simp add: dec_value_def)

lemma read_block_dec:
  "0 \<le> t \<Longrightarrow> t \<le> p + 1 \<Longrightarrow> p < int (length s) \<Longrightarrow>
   read_block s t p 0 = dec_value (filter is_digit (segi s t p))"
  by (simp add: read_block_foldl dec_value_def)

subsection \<open>The outer loop on a segment\<close>

lemma blocks_value_Nil: "blocks_value [] = 0"
  by (subst blocks_value.simps) simp

lemma blocks_value_step:
  "cs \<noteq> [] \<Longrightarrow>
   blocks_value cs = dec_value (filter is_digit (drop (length cs - 4) cs))
                     + BASE * blocks_value (take (length cs - 4) cs)"
  by (subst blocks_value.simps) simp

lemma blocks_value_short:
  "length cs < 4 \<Longrightarrow> blocks_value cs = dec_value (filter is_digit cs)"
  by (cases "cs = []") (simp_all add: blocks_value_Nil blocks_value_step dec_value_Nil)

lemma blocks_value_append4:
  "length ys = 4 \<Longrightarrow>
   blocks_value (xs @ ys) = dec_value (filter is_digit ys) + BASE * blocks_value xs"
proof -
  assume l: "length ys = 4"
  then have n: "xs @ ys \<noteq> []" by auto
  show ?thesis unfolding blocks_value_step[OF n] using l by simp
qed

lemma read_blocks_mag:
  "0 \<le> i \<Longrightarrow> i \<le> p + 1 \<Longrightarrow> p < int (length s) \<Longrightarrow>
   mag (read_blocks s i p ds) = mag ds + BASE ^ length ds * blocks_value (segi s i p)"
proof (induction k \<equiv> "nat (p - i + 1)" arbitrary: p ds rule: less_induct)
  case less
  show ?case
  proof (cases "i \<le> p")
    case False
    then have "p < i" by simp
    then show ?thesis by (simp add: read_blocks_stop segi_empty blocks_value_Nil)
  next
    case True
    define l where "l = (if p - 3 < i then i else p - 3)"
    define val where "val = read_block s l p 0"
    have st: "read_blocks s i p ds = read_blocks s i (p - 4) (ds @ [val])"
      unfolding read_blocks_step[OF True] l_def[symmetric] val_def[symmetric] ..
    show ?thesis
    proof (cases "p - 3 < i")
      case T: True
      then have l: "l = i" by (simp add: l_def)
      have "length (segi s i p) = nat (p - i + 1)" by (rule segi_length[OF less.prems])
      then have "length (segi s i p) < 4" using T by simp
      then have b: "blocks_value (segi s i p) = dec_value (filter is_digit (segi s i p))"
        by (rule blocks_value_short)
      have v: "val = blocks_value (segi s i p)"
        unfolding val_def l b by (rule read_block_dec[OF less.prems])
      have "read_blocks s i (p - 4) (ds @ [val]) = ds @ [val]" using T by (simp add: read_blocks_stop)
      then show ?thesis unfolding st by (simp add: mag_append v)
    next
      case F: False
      then have l: "l = p - 3" by (simp add: l_def)
      have sp: "segi s i p = segi s i (p - 4) @ segi s (p - 3) p"
        using segi_split[of i "p - 4" p s] less.prems F by simp
      have p3: "0 \<le> p - 3" using F less.prems(1) by simp
      have v: "val = dec_value (filter is_digit (segi s (p - 3) p))"
        unfolding val_def l by (rule read_block_dec[OF p3 _ less.prems(3)]) simp
      have len: "length (segi s (p - 3) p) = 4"
        using segi_length[OF p3 _ less.prems(3)] by simp
      have m: "nat (p - 4 - i + 1) < nat (p - i + 1)" using True by simp
      have IH: "mag (read_blocks s i (p - 4) (ds @ [val]))
                = mag (ds @ [val]) + BASE ^ length (ds @ [val]) * blocks_value (segi s i (p - 4))"
        by (rule less.hyps[OF m less.prems(1)]) (use F less.prems(3) in simp_all)
      have "blocks_value (segi s i p) = val + BASE * blocks_value (segi s i (p - 4))"
        unfolding sp blocks_value_append4[OF len] v ..
      then show ?thesis unfolding st IH by (simp add: mag_append algebra_simps)
    qed
  qed
qed

subsection \<open>The number of the blocks and the trailing run of digits\<close>

lemma digit_zero_iff: "((of_char c :: int) - 48 = 0) = (c = CHR ''0'')"
proof
  assume "(of_char c :: int) - 48 = 0"
  then have "(of_char c :: int) = of_char (CHR ''0'')" by simp
  then show "c = CHR ''0''" by (simp only: of_char_eq_iff)
next
  assume "c = CHR ''0''"
  then show "(of_char c :: int) - 48 = 0" by simp
qed

lemma dec_value_digits:
  "list_all is_digit ds \<Longrightarrow>
   0 \<le> dec_value ds \<and> (dec_value ds = 0) = list_all (\<lambda>c. c = CHR ''0'') ds"
proof (induction ds)
  case Nil
  then show ?case by (simp add: dec_value_Nil)
next
  case (Cons c cs)
  then have d: "is_digit c" and r: "list_all is_digit cs" by simp_all
  let ?d = "(of_char c :: int) - 48"
  have d0: "0 \<le> ?d" using digit_val_range[OF d] by simp
  have p: "0 \<le> ?d * 10 ^ length cs" using d0 by simp
  have z: "(?d * 10 ^ length cs = 0) = (c = CHR ''0'')"
    using digit_zero_iff[of c] by simp
  from Cons.IH[OF r] have i1: "0 \<le> dec_value cs"
    and i2: "(dec_value cs = 0) = list_all (\<lambda>c. c = CHR ''0'') cs" by simp_all
  have "(dec_value (c # cs) = 0) = (?d * 10 ^ length cs = 0 \<and> dec_value cs = 0)"
    unfolding dec_value_Cons using p i1 by linarith
  then have "(dec_value (c # cs) = 0) = list_all (\<lambda>c. c = CHR ''0'') (c # cs)"
    unfolding z i2 by simp
  moreover have "0 \<le> dec_value (c # cs)" unfolding dec_value_Cons using p i1 by linarith
  ultimately show ?case by simp
qed

lemma dec_value_filter:
  "0 \<le> dec_value (filter is_digit cs)
   \<and> (dec_value (filter is_digit cs) = 0) = list_all (\<lambda>c. is_digit c \<longrightarrow> c = CHR ''0'') cs"
proof -
  have "list_all is_digit (filter is_digit cs)" by (simp add: list_all_iff)
  from dec_value_digits[OF this]
  have "0 \<le> dec_value (filter is_digit cs)"
    and "(dec_value (filter is_digit cs) = 0) = list_all (\<lambda>c. c = CHR ''0'') (filter is_digit cs)"
    by simp_all
  moreover have "list_all (\<lambda>c. c = CHR ''0'') (filter is_digit cs)
                 = list_all (\<lambda>c. is_digit c \<longrightarrow> c = CHR ''0'') cs"
    by (auto simp: list_all_iff)
  ultimately show ?thesis by simp
qed

lemma blocks_value_zero:
  "0 \<le> blocks_value cs
   \<and> (blocks_value cs = 0) = list_all (\<lambda>c. is_digit c \<longrightarrow> c = CHR ''0'') cs"
proof (induction k \<equiv> "length cs" arbitrary: cs rule: less_induct)
  case less
  show ?case
  proof (cases "cs = []")
    case True
    then show ?thesis by (simp add: blocks_value_Nil)
  next
    case False
    let ?Z = "\<lambda>c. is_digit c \<longrightarrow> c = CHR ''0''"
    let ?lo = "drop (length cs - 4) cs"
    let ?hi = "take (length cs - 4) cs"
    have m: "length ?hi < length cs" using False by (cases cs) simp_all
    from less.hyps[OF m] have h1: "0 \<le> blocks_value ?hi"
      and h2: "(blocks_value ?hi = 0) = list_all ?Z ?hi" by simp_all
    from dec_value_filter[of ?lo] have l1: "0 \<le> dec_value (filter is_digit ?lo)"
      and l2: "(dec_value (filter is_digit ?lo) = 0) = list_all ?Z ?lo" by simp_all
    have b: "0 \<le> BASE * blocks_value ?hi" using h1 by (simp add: BASE_def)
    have bz: "(BASE * blocks_value ?hi = 0) = (blocks_value ?hi = 0)" by (simp add: BASE_def)
    have "list_all ?Z (?hi @ ?lo) = (list_all ?Z ?hi \<and> list_all ?Z ?lo)" by (rule list_all_append)
    then have sp: "list_all ?Z cs = (list_all ?Z ?hi \<and> list_all ?Z ?lo)" by simp
    have "(blocks_value cs = 0) = (dec_value (filter is_digit ?lo) = 0 \<and> BASE * blocks_value ?hi = 0)"
      unfolding blocks_value_step[OF False] using l1 b by linarith
    then have "(blocks_value cs = 0) = list_all ?Z cs" unfolding bz h2 l2 sp by blast
    moreover have "0 \<le> blocks_value cs" unfolding blocks_value_step[OF False] using l1 b by linarith
    ultimately show ?thesis by simp
  qed
qed

lemma blocks_value_run:
  "list_all is_digit ds \<Longrightarrow>
   dec_value ds \<le> blocks_value (pre @ ds)
   \<and> (blocks_value (pre @ ds) = dec_value ds)
     = list_all (\<lambda>c. is_digit c \<longrightarrow> c = CHR ''0'') pre"
proof (induction k \<equiv> "length ds" arbitrary: ds rule: less_induct)
  case less
  let ?Z = "\<lambda>c. is_digit c \<longrightarrow> c = CHR ''0''"
  show ?case
  proof (cases "4 \<le> length ds")
    case True
    let ?lo = "drop (length ds - 4) ds"
    let ?hi = "take (length ds - 4) ds"
    have ds: "ds = ?hi @ ?lo" by simp
    have len: "length ?lo = 4" using True by simp
    have dlo: "list_all is_digit ?lo" and dhi: "list_all is_digit ?hi"
      using less.prems set_drop_subset[of "length ds - 4" ds] set_take_subset[of "length ds - 4" ds]
      by (auto simp: list_all_iff)
    have f: "filter is_digit ?lo = ?lo" using dlo by (simp add: list_all_iff)
    have m: "length ?hi < length ds" using True by simp
    from less.hyps[OF m dhi] have i1: "dec_value ?hi \<le> blocks_value (pre @ ?hi)"
      and i2: "(blocks_value (pre @ ?hi) = dec_value ?hi) = list_all ?Z pre" by simp_all
    have "blocks_value ((pre @ ?hi) @ ?lo) = dec_value (filter is_digit ?lo) + BASE * blocks_value (pre @ ?hi)"
      by (rule blocks_value_append4[OF len])
    then have b: "blocks_value (pre @ ds) = dec_value ?lo + BASE * blocks_value (pre @ ?hi)"
      unfolding f by simp
    have "dec_value (?hi @ ?lo) = dec_value ?hi * 10 ^ length ?lo + dec_value ?lo"
      by (rule dec_value_append)
    then have d: "dec_value ds = dec_value ?lo + BASE * dec_value ?hi"
      unfolding len by (simp add: BASE_def)
    have "(blocks_value (pre @ ds) = dec_value ds) = (blocks_value (pre @ ?hi) = dec_value ?hi)"
      unfolding b d by (simp add: BASE_def)
    moreover have "dec_value ds \<le> blocks_value (pre @ ds)"
      unfolding b d using i1 by (simp add: BASE_def)
    ultimately show ?thesis unfolding i2 by simp
  next
    case False
    show ?thesis
    proof (cases "pre @ ds = []")
      case True
      then show ?thesis by (simp add: blocks_value_Nil dec_value_Nil)
    next
      case ne: False
      define k where "k = length (pre @ ds) - 4"
      have kl: "k \<le> length pre" using False by (simp add: k_def)
      let ?lo = "drop k pre"
      let ?hi = "take k pre"
      have fd: "filter is_digit ds = ds" using less.prems by (simp add: list_all_iff)
      have dr: "drop k (pre @ ds) = ?lo @ ds" and tk: "take k (pre @ ds) = ?hi"
        using kl by simp_all
      have "blocks_value (pre @ ds)
            = dec_value (filter is_digit (drop k (pre @ ds))) + BASE * blocks_value (take k (pre @ ds))"
        unfolding k_def by (rule blocks_value_step[OF ne])
      also have "dec_value (filter is_digit (drop k (pre @ ds)))
                 = dec_value (filter is_digit ?lo) * 10 ^ length ds + dec_value ds"
        unfolding dr filter_append fd by (rule dec_value_append)
      finally have b: "blocks_value (pre @ ds)
            = dec_value (filter is_digit ?lo) * 10 ^ length ds + dec_value ds + BASE * blocks_value ?hi"
        unfolding tk .
      from dec_value_filter[of ?lo] have l1: "0 \<le> dec_value (filter is_digit ?lo)"
        and l2: "(dec_value (filter is_digit ?lo) = 0) = list_all ?Z ?lo" by simp_all
      from blocks_value_zero[of ?hi] have h1: "0 \<le> blocks_value ?hi"
        and h2: "(blocks_value ?hi = 0) = list_all ?Z ?hi" by simp_all
      have p1: "0 \<le> dec_value (filter is_digit ?lo) * 10 ^ length ds" using l1 by simp
      have z1: "(dec_value (filter is_digit ?lo) * 10 ^ length ds = 0) = (dec_value (filter is_digit ?lo) = 0)"
        by simp
      have p2: "0 \<le> BASE * blocks_value ?hi" using h1 by (simp add: BASE_def)
      have z2: "(BASE * blocks_value ?hi = 0) = (blocks_value ?hi = 0)" by (simp add: BASE_def)
      have "list_all ?Z (?hi @ ?lo) = (list_all ?Z ?hi \<and> list_all ?Z ?lo)" by (rule list_all_append)
      then have sp: "list_all ?Z pre = (list_all ?Z ?hi \<and> list_all ?Z ?lo)" by simp
      have "(blocks_value (pre @ ds) = dec_value ds)
            = (dec_value (filter is_digit ?lo) * 10 ^ length ds = 0 \<and> BASE * blocks_value ?hi = 0)"
        unfolding b using p1 p2 by linarith
      then have "(blocks_value (pre @ ds) = dec_value ds) = list_all ?Z pre"
        unfolding z1 z2 l2 h2 sp by blast
      moreover have "dec_value ds \<le> blocks_value (pre @ ds)" unfolding b using p1 p2 by linarith
      ultimately show ?thesis by simp
    qed
  qed
qed

subsection \<open>The scan of read on the string as a list\<close>

lemma skip_space_step:
  "skip_space s n i = (if i < n \<and> is_space (s ! nat i) then skip_space s n (i + 1) else i)"
  by (subst skip_space.simps) simp

lemma skip_space_eq:
  "i \<le> length s \<Longrightarrow>
   skip_space s (int (length s)) (int i) = int (i + length (takeWhile is_space (drop i s)))"
proof (induction k \<equiv> "length s - i" arbitrary: i)
  case 0
  then show ?case by (subst skip_space_step) simp
next
  case (Suc k)
  then have i: "i < length s" by simp
  then have d: "drop i s = s ! i # drop (Suc i) s" by (simp add: Cons_nth_drop_Suc)
  show ?case
  proof (cases "is_space (s ! i)")
    case True
    have k: "k = length s - Suc i" using Suc.hyps(2) by simp
    have "skip_space s (int (length s)) (int (Suc i))
          = int (Suc i + length (takeWhile is_space (drop (Suc i) s)))"
      by (rule Suc.hyps(1)[OF k]) (use i in simp)
    moreover have "skip_space s (int (length s)) (int i) = skip_space s (int (length s)) (int (Suc i))"
    proof -
      have e: "int i + 1 = int (Suc i)" by simp
      have "skip_space s (int (length s)) (int i) = skip_space s (int (length s)) (int i + 1)"
        using True i by (subst skip_space_step) simp
      then show ?thesis unfolding e .
    qed
    moreover have "length (takeWhile is_space (drop i s)) = Suc (length (takeWhile is_space (drop (Suc i) s)))"
      using True by (simp add: d)
    ultimately show ?thesis by (simp del: of_nat_Suc)
  next
    case False
    then show ?thesis using i by (subst skip_space_step) (simp add: d)
  qed
qed

lemma dropWhile_as_drop: "dropWhile P xs = drop (length (takeWhile P xs)) xs"
  by (induction xs) simp_all

lemma up_to_last_digit_snoc:
  "up_to_last_digit (xs @ [c]) = (if is_digit c then xs @ [c] else up_to_last_digit xs)"
  by (simp add: up_to_last_digit_def)

lemma up_to_last_digit_Nil [simp]: "up_to_last_digit [] = []"
  by (simp add: up_to_last_digit_def)

lemma last_digit_step:
  "last_digit s i e = (if e \<ge> i \<and> \<not> is_digit (s ! nat e) then last_digit s i (e - 1) else e)"
  by (subst last_digit.simps) simp

lemma last_digit_eq:
  "0 \<le> i \<Longrightarrow> i \<le> e + 1 \<Longrightarrow> e < int (length s) \<Longrightarrow>
   up_to_last_digit (segi s i e) = segi s i (last_digit s i e)
   \<and> i - 1 \<le> last_digit s i e \<and> last_digit s i e \<le> e"
proof (induction k \<equiv> "nat (e - i + 1)" arbitrary: e)
  case 0
  then have "e < i" by simp
  then show ?case using 0 by (subst (1 2 3) last_digit_step) (simp add: segi_empty)
next
  case (Suc k)
  then have le: "i \<le> e" by simp
  note l = segi_last[OF Suc.prems(1) le Suc.prems(3)]
  show ?case
  proof (cases "is_digit (s ! nat e)")
    case True
    then have "last_digit s i e = e" by (subst last_digit_step) simp
    then show ?thesis using True le by (simp add: l up_to_last_digit_snoc)
  next
    case False
    have k: "k = nat (e - 1 - i + 1)" using Suc.hyps(2) by simp
    have st: "last_digit s i e = last_digit s i (e - 1)"
      using False le by (subst last_digit_step) simp
    have "up_to_last_digit (segi s i (e - 1)) = segi s i (last_digit s i (e - 1))
          \<and> i - 1 \<le> last_digit s i (e - 1) \<and> last_digit s i (e - 1) \<le> e - 1"
      by (rule Suc.hyps(1)[OF k Suc.prems(1)]) (use le Suc.prems(3) in simp_all)
    then show ?thesis unfolding st using False by (simp add: l up_to_last_digit_snoc)
  qed
qed

text \<open>The position after the whitespace and the sign, as \<open>read\<close> computes it.\<close>

lemma read_scan:
  fixes s :: string
  defines "w \<equiv> length (takeWhile is_space s)"
  defines "sg \<equiv> w < length s \<and> (s ! w = CHR ''+'' \<or> s ! w = CHR ''-'')"
  defines "i \<equiv> (if sg then int w + 1 else int w)"
  defines "e \<equiv> last_digit s i (int (length s) - 1)"
  shows "spec_body s = drop (nat i) s"
    and "spec_minus s = (w < length s \<and> s ! w = CHR ''-'')"
    and "0 \<le> i" and "i \<le> int (length s)"
    and "up_to_last_digit (spec_body s) = segi s i e"
    and "i - 1 \<le> e" and "e < int (length s)"
    and "read s = (if e < i then \<lparr>a = [], neg = False\<rparr>
                   else (let r = trim \<lparr>a = read_blocks s i e [], neg = spec_minus s\<rparr>
                         in if is_zero r then r\<lparr>neg := False\<rparr> else r))"
proof -
  have wl: "w \<le> length s" unfolding w_def by (rule length_takeWhile_le)
  have dw: "dropWhile is_space s = drop w s" unfolding w_def by (rule dropWhile_as_drop)
  show i0: "0 \<le> i" by (simp add: i_def)
  show il: "i \<le> int (length s)" using wl by (auto simp: i_def sg_def)
  show body: "spec_body s = drop (nat i) s"
  proof (cases "w < length s")
    case True
    then have d: "drop w s = s ! w # drop (Suc w) s" by (simp add: Cons_nth_drop_Suc)
    have "nat (int w + 1) = Suc w" by simp
    then show ?thesis using True by (simp add: spec_body_def dw d i_def sg_def)
  next
    case False
    then have "drop w s = []" by simp
    then show ?thesis using False by (simp add: spec_body_def dw i_def sg_def)
  qed
  show minus: "spec_minus s = (w < length s \<and> s ! w = CHR ''-'')"
  proof (cases "w < length s")
    case True
    then have d: "drop w s = s ! w # drop (Suc w) s" by (simp add: Cons_nth_drop_Suc)
    show ?thesis using True by (simp add: spec_minus_def dw d)
  next
    case False
    then have "drop w s = []" by simp
    then show ?thesis using False by (simp add: spec_minus_def dw)
  qed
  have all: "segi s i (int (length s) - 1) = spec_body s" using segi_all[OF i0] body by simp
  from last_digit_eq[OF i0, of "int (length s) - 1" s] il
  have ld: "up_to_last_digit (segi s i (int (length s) - 1)) = segi s i e" "i - 1 \<le> e" "e \<le> int (length s) - 1"
    by (simp_all add: e_def)
  show "up_to_last_digit (spec_body s) = segi s i e" using ld(1) all by simp
  show "i - 1 \<le> e" by (rule ld(2))
  show "e < int (length s)" using ld(3) by simp
  have sk: "skip_space s (int (length s)) 0 = int w"
    using skip_space_eq[of 0 s] by (simp add: w_def)
  have c: "(int w < int (length s) \<and> (s ! nat (int w) = CHR ''+'' \<or> s ! nat (int w) = CHR ''-'')) = sg"
    by (simp add: sg_def)
  have ng: "(if sg then (s ! nat (int w) = CHR ''-'', int w + 1) else (False, int w)) = (spec_minus s, i)"
    by (auto simp: minus i_def sg_def)
  show "read s = (if e < i then \<lparr>a = [], neg = False\<rparr>
                   else (let r = trim \<lparr>a = read_blocks s i e [], neg = spec_minus s\<rparr>
                         in if is_zero r then r\<lparr>neg := False\<rparr> else r))"
    unfolding read_def Let_def sk c ng by (simp add: e_def)
qed

text \<open>The magnitude and the sign that \<open>read\<close> returns, for every string.\<close>

lemma read_mag: "mag (a (read s)) = blocks_value (up_to_last_digit (spec_body s))"
proof -
  define w where "w = length (takeWhile is_space s)"
  define i where "i = (if w < length s \<and> (s ! w = CHR ''+'' \<or> s ! w = CHR ''-'') then int w + 1 else int w)"
  define e where "e = last_digit s i (int (length s) - 1)"
  note sc = read_scan[of s, folded w_def, folded i_def, folded e_def]
  have il: "i \<le> e + 1" using sc(6) by simp
  have "mag (a (read s)) = blocks_value (segi s i e)"
  proof (cases "e < i")
    case True
    then show ?thesis by (simp add: sc(8) segi_empty blocks_value_Nil)
  next
    case False
    have "mag (read_blocks s i e []) = blocks_value (segi s i e)"
      using read_blocks_mag[OF sc(3) il sc(7), of "[]"] by simp
    then show ?thesis using False by (simp add: sc(8) Let_def trim_a trim_loop_mag)
  qed
  then show ?thesis using sc(5) by simp
qed

lemma read_neg: "neg (read s) = (spec_minus s \<and> mag (a (read s)) \<noteq> 0)"
proof -
  define w where "w = length (takeWhile is_space s)"
  define i where "i = (if w < length s \<and> (s ! w = CHR ''+'' \<or> s ! w = CHR ''-'') then int w + 1 else int w)"
  define e where "e = last_digit s i (int (length s) - 1)"
  note sc = read_scan[of s, folded w_def, folded i_def, folded e_def]
  have n: "neg (read s) = (spec_minus s \<and> a (read s) \<noteq> [])"
    by (auto simp: sc(8) Let_def is_zero_def trim_def)
  have "(a (read s) \<noteq> []) = (mag (a (read s)) \<noteq> 0)" using wf_mag_0[OF read_wf, of s] by simp
  then show ?thesis using n by simp
qed

text \<open>The trailing run of digits and what stands before it.\<close>

lemma digit_run_decomp: "up_to_last_digit t = before_digit_run t @ trailing_digit_run t"
proof -
  let ?r = "rev (up_to_last_digit t)"
  have "up_to_last_digit t = rev (takeWhile is_digit ?r @ dropWhile is_digit ?r)" by simp
  also have "\<dots> = rev (dropWhile is_digit ?r) @ rev (takeWhile is_digit ?r)" by (rule rev_append)
  finally show ?thesis unfolding before_digit_run_def trailing_digit_run_def .
qed

lemma trailing_digit_run_digits: "list_all is_digit (trailing_digit_run t)"
  unfolding trailing_digit_run_def list_all_iff by (auto dest: set_takeWhileD)

lemma digit_run_split:
  assumes "up_to_last_digit t = ns @ ds" "list_all (\<lambda>c. \<not> is_digit c) ns" "list_all is_digit ds"
  shows "before_digit_run t = ns" and "trailing_digit_run t = ds"
proof -
  have r: "rev (up_to_last_digit t) = rev ds @ rev ns" using assms(1) by simp
  have d: "\<forall>c \<in> set (rev ds). is_digit c" using assms(3) by (simp add: list_all_iff)
  have n: "rev ns = [] \<or> \<not> is_digit (hd (rev ns))"
  proof (cases "rev ns")
    case Nil
    then show ?thesis by simp
  next
    case (Cons c cs)
    then have "c \<in> set ns" by (metis list.set_intros(1) set_rev)
    then show ?thesis using assms(2) Cons by (simp add: list_all_iff)
  qed
  have t0: "takeWhile is_digit (rev ns) = []" using n by (cases "rev ns") auto
  have d0: "dropWhile is_digit (rev ns) = rev ns" using n by (cases "rev ns") auto
  have "takeWhile is_digit (rev ds @ rev ns) = rev ds @ takeWhile is_digit (rev ns)"
    by (rule takeWhile_append2) (use d in blast)
  then have tw: "takeWhile is_digit (rev ds @ rev ns) = rev ds" unfolding t0 by simp
  have "dropWhile is_digit (rev ds @ rev ns) = dropWhile is_digit (rev ns)"
    by (rule dropWhile_append2) (use d in blast)
  then have dw: "dropWhile is_digit (rev ds @ rev ns) = rev ns" unfolding d0 .
  show "before_digit_run t = ns" unfolding before_digit_run_def r dw by simp
  show "trailing_digit_run t = ds" unfolding trailing_digit_run_def r tw by simp
qed

text \<open>
  The magnitude is the value of the trailing run of digits exactly when no digit other
  than \<open>0\<close> stands before the run.
\<close>

lemma read_run:
  "(mag (a (read s)) = dec_value (trailing_digit_run (spec_body s)))
   = list_all (\<lambda>c. is_digit c \<longrightarrow> c = CHR ''0'') (before_digit_run (spec_body s))"
proof -
  let ?t = "spec_body s"
  have "(blocks_value (before_digit_run ?t @ trailing_digit_run ?t) = dec_value (trailing_digit_run ?t))
        = list_all (\<lambda>c. is_digit c \<longrightarrow> c = CHR ''0'') (before_digit_run ?t)"
    using blocks_value_run[OF trailing_digit_run_digits, of ?t "before_digit_run ?t"] by simp
  then show ?thesis unfolding read_mag digit_run_decomp[of ?t, symmetric] .
qed

lemma read_no_digit:
  assumes "list_all (\<lambda>c. \<not> is_digit c) s"
  shows "read s = zero_int2048"
proof -
  define w where "w = length (takeWhile is_space s)"
  define i where "i = (if w < length s \<and> (s ! w = CHR ''+'' \<or> s ! w = CHR ''-'') then int w + 1 else int w)"
  define e where "e = last_digit s i (int (length s) - 1)"
  note sc = read_scan[of s, folded w_def, folded i_def, folded e_def]
  have "set (spec_body s) \<subseteq> set s" unfolding sc(1) by (rule set_drop_subset)
  then have "\<forall>c \<in> set (rev (spec_body s)). \<not> is_digit c" using assms by (auto simp: list_all_iff)
  then have dn: "dropWhile (\<lambda>c. \<not> is_digit c) (rev (spec_body s)) = []"
    by (rule dropWhile_eq_Nil_conv[THEN iffD2])
  have "up_to_last_digit (spec_body s) = []" unfolding up_to_last_digit_def dn by simp
  then have "segi s i e = []" using sc(5) by simp
  moreover have "length (segi s i e) = nat (e - i + 1)"
    by (rule segi_length[OF sc(3) _ sc(7)]) (use sc(6) in simp)
  ultimately have "e < i" by simp
  then show ?thesis by (simp add: sc(8) zero_int2048_def)
qed

subsection \<open>The numbers the signed operations denote\<close>

lemma wf_neg_iff: "wf_int2048 x \<Longrightarrow> neg x = (value_of x < 0)"
  using wf_neg_pos[of x] mag_nonneg[of "a x"] by (auto simp: value_of_def wf_int2048_def)

lemma eq_op_value:
  assumes "wf_int2048 x" "wf_int2048 y"
  shows "eq_op x y = (value_of x = value_of y)"
proof
  assume "eq_op x y"
  then show "value_of x = value_of y" by (simp add: eq_op_def value_of_def)
next
  assume e: "value_of x = value_of y"
  then have n: "neg x = neg y" using wf_neg_iff[OF assms(1)] wf_neg_iff[OF assms(2)] by simp
  have "mag (a x) = mag (a y)" using e value_of_mag[OF assms(1)] value_of_mag[OF assms(2)] by simp
  then have "a x = a y" by (rule wf_mag_inj[OF assms])
  with n show "eq_op x y" by (simp add: eq_op_def)
qed

lemma add_value:
  assumes "wf_int2048 x" "wf_int2048 b"
  shows "value_of (add x b) = value_of x + value_of b"
proof -
  have ox: "digits_ok (a x)" and ob: "digits_ok (a b)" using assms by (simp_all add: wf_int2048_def)
  note c = abs_compare_eq0[OF assms] abs_compare_gt0[OF assms]
  show ?thesis
  proof (cases "neg x = neg b")
    case True
    have m: "mag (a (add_abs x b)) = mag (a x) + mag (a b)" by (rule add_abs_mag(1)[OF ox ob])
    have z: "is_zero (add_abs x b) = (mag (a x) + mag (a b) = 0)"
      using wf_mag_0[OF add_abs_wf[OF assms]] m by (simp add: is_zero_def)
    show ?thesis using True m z by (auto simp: add_def Let_def value_of_def)
  next
    case False
    consider (e) "mag (a x) = mag (a b)" | (g) "mag (a b) < mag (a x)" | (l) "mag (a x) < mag (a b)"
      by linarith
    then show ?thesis
    proof cases
      case e
      with False c show ?thesis by (auto simp: add_def Let_def value_of_def)
    next
      case g
      have "mag (a (sub_abs x b)) = mag (a x) - mag (a b)"
        using sub_abs_mag_wf[OF assms] g by simp
      with False c g show ?thesis by (auto simp: add_def Let_def value_of_def)
    next
      case l
      have "mag (a (sub_abs b x)) = mag (a b) - mag (a x)"
        using sub_abs_mag_wf[OF assms(2,1)] l by simp
      with False c l show ?thesis by (auto simp: add_def Let_def value_of_def)
    qed
  qed
qed

lemma mod_sign_arith:
  fixes X B P R :: int
  assumes "X = P + R" "B \<noteq> 0" "0 < B \<Longrightarrow> 0 \<le> R \<and> R < B" "B < 0 \<Longrightarrow> B < R \<and> R \<le> 0"
    "0 \<le> X \<Longrightarrow> 0 < B \<Longrightarrow> R \<le> X"
  shows "(if (X < 0) \<noteq> (P < 0) then \<bar>X\<bar> + \<bar>P\<bar>
          else if \<bar>X\<bar> = \<bar>P\<bar> then 0
          else if \<bar>P\<bar> < \<bar>X\<bar> then \<bar>X\<bar> - \<bar>P\<bar>
          else (if \<not> (P < 0) then - (\<bar>P\<bar> - \<bar>X\<bar>) else \<bar>P\<bar> - \<bar>X\<bar>))
         = (if X < 0 \<and> B < 0 then - R else R)"
proof (cases "0 < B")
  case True
  with assms(3) have r: "0 \<le> R" "R < B" by simp_all
  show ?thesis
  proof (cases "0 \<le> X")
    case T: True
    with assms(5) True have "R \<le> X" by simp
    with assms(1) r T True show ?thesis by (auto simp: abs_if)
  next
    case False
    with assms(1) r True show ?thesis by (auto simp: abs_if)
  qed
next
  case False
  with assms(2) have b: "B < 0" by simp
  with assms(4) have r: "B < R" "R \<le> 0" by simp_all
  with assms(1) b show ?thesis by (auto simp: abs_if)
qed

lemma mod_op_value:
  assumes "wf_int2048 x" "wf_int2048 b" "\<not> is_zero b"
  shows "\<exists>r. mod_op x b = Some r \<and> wf_int2048 r
           \<and> value_of r = (if neg x \<and> neg b then - (value_of x mod value_of b)
                           else value_of x mod value_of b)"
proof -
  obtain qa ra where dm: "divmod_abs (x\<lparr>neg := False\<rparr>) (b\<lparr>neg := False\<rparr>) = (qa, ra)"
    by (cases "divmod_abs (x\<lparr>neg := False\<rparr>) (b\<lparr>neg := False\<rparr>)")
  note dc = div_op_correct(1,2)[OF assms dm]
  from mul_op_total[OF dc(1) assms(2)] obtain prd where
    p: "mul_op (div_op x b) b = Some prd" "wf_int2048 prd"
       "value_of prd = value_of (div_op x b) * value_of b" by auto
  define X where "X = value_of x"
  define B where "B = value_of b"
  define P where "P = value_of prd"
  define R where "R = X mod B"
  have Pv: "P = (X div B) * B" using p(3) dc(2) by (simp add: P_def X_def B_def)
  have e: "X = P + R" unfolding Pv R_def by simp
  have B0: "B \<noteq> 0"
    using wf_mag_pos[OF assms(2)] assms(3) value_of_mag[OF assms(2)] by (auto simp: B_def is_zero_def)
  have f1: "0 < B \<Longrightarrow> 0 \<le> R \<and> R < B" by (simp add: R_def)
  have f2: "B < 0 \<Longrightarrow> B < R \<and> R \<le> 0" by (simp add: R_def)
  have f3: "0 \<le> X \<Longrightarrow> 0 < B \<Longrightarrow> R \<le> X" by (simp add: R_def zmod_le_nonneg_dividend)
  note ar = mod_sign_arith[OF e B0 f1 f2 f3]
  have nx: "neg x = (X < 0)" and np: "neg prd = (P < 0)" and nb: "neg b = (B < 0)"
    using wf_neg_iff assms p(2) by (simp_all add: X_def P_def B_def)
  have mx: "mag (a x) = \<bar>X\<bar>" and mp: "mag (a prd) = \<bar>P\<bar>"
    using value_of_mag assms(1) p(2) by (simp_all add: X_def P_def)
  have ox: "digits_ok (a x)" and op: "digits_ok (a prd)" using assms p by (simp_all add: wf_int2048_def)
  note c = abs_compare_eq0[OF assms(1) p(2)] abs_compare_gt0[OF assms(1) p(2)]
  have v1: "value_of (add_abs x prd) = \<bar>X\<bar> + \<bar>P\<bar>"
    using add_abs_mag(1)[OF ox op] by (simp add: value_of_def mx mp)
  have v2: "value_of (x\<lparr>a := [], neg := False\<rparr>) = 0" by (simp add: value_of_def)
  have v3: "\<bar>P\<bar> < \<bar>X\<bar> \<Longrightarrow> value_of (sub_abs x prd) = \<bar>X\<bar> - \<bar>P\<bar>"
    using sub_abs_mag_wf[OF assms(1) p(2)] by (simp add: value_of_def mx mp)
  have v4: "\<bar>X\<bar> < \<bar>P\<bar> \<Longrightarrow> value_of ((sub_abs prd x)\<lparr>neg := \<not> neg prd\<rparr>)
              = (if \<not> (P < 0) then - (\<bar>P\<bar> - \<bar>X\<bar>) else \<bar>P\<bar> - \<bar>X\<bar>)"
    using sub_abs_mag_wf[OF p(2) assms(1)] by (simp add: value_of_def mx mp np)
  from mod_op_wf[OF assms(1,2)] obtain r where r: "mod_op x b = Some r" "wf_int2048 r" by auto
  have e2: "r' \<lparr>neg := neg r'\<rparr> = r'" for r' :: int2048 by simp
  have eq: "mod_op x b = Some (if neg x \<noteq> neg prd then add_abs x prd
                else (if abs_compare x prd = 0 then x\<lparr>a := [], neg := False\<rparr>
                      else if abs_compare x prd > 0 then sub_abs x prd
                      else (sub_abs prd x)\<lparr>neg := \<not> neg prd\<rparr>))"
    using p(1) by (simp add: mod_op_def Let_def e2)
  from r(1)[unfolded eq]
  have "(if neg x \<noteq> neg prd then add_abs x prd
                else (if abs_compare x prd = 0 then x\<lparr>a := [], neg := False\<rparr>
                      else if abs_compare x prd > 0 then sub_abs x prd
                      else (sub_abs prd x)\<lparr>neg := \<not> neg prd\<rparr>)) = r"
    by (simp only: option.inject)
  then have req: "r = (if neg x \<noteq> neg prd then add_abs x prd
                else (if abs_compare x prd = 0 then x\<lparr>a := [], neg := False\<rparr>
                      else if abs_compare x prd > 0 then sub_abs x prd
                      else (sub_abs prd x)\<lparr>neg := \<not> neg prd\<rparr>))"
    by (rule sym)
  have vr: "value_of r = (if (X < 0) \<noteq> (P < 0) then \<bar>X\<bar> + \<bar>P\<bar>
          else if \<bar>X\<bar> = \<bar>P\<bar> then 0
          else if \<bar>P\<bar> < \<bar>X\<bar> then \<bar>X\<bar> - \<bar>P\<bar>
          else (if \<not> (P < 0) then - (\<bar>P\<bar> - \<bar>X\<bar>) else \<bar>P\<bar> - \<bar>X\<bar>))"
  proof -
    consider (a) "(X < 0) \<noteq> (P < 0)" | (b) "(X < 0) = (P < 0)" "\<bar>X\<bar> = \<bar>P\<bar>"
      | (c) "(X < 0) = (P < 0)" "\<bar>P\<bar> < \<bar>X\<bar>" | (d) "(X < 0) = (P < 0)" "\<bar>X\<bar> < \<bar>P\<bar>"
      by linarith
    then show ?thesis
    proof cases
      case a
      then show ?thesis unfolding req using v1 nx np by simp
    next
      case b
      then show ?thesis unfolding req using v2 nx np c mx mp by simp
    next
      case c
      then show ?thesis unfolding req using v3 nx np \<open>(abs_compare x prd = 0) = _\<close>
          \<open>(0 < abs_compare x prd) = _\<close> mx mp by simp
    next
      case d
      then show ?thesis unfolding req using v4 nx np \<open>(abs_compare x prd = 0) = _\<close>
          \<open>(0 < abs_compare x prd) = _\<close> mx mp by simp
    qed
  qed
  from vr ar have "value_of r = (if X < 0 \<and> B < 0 then - R else R)" by (rule trans)
  then have "value_of r = (if neg x \<and> neg b then - (value_of x mod value_of b)
                           else value_of x mod value_of b)"
    unfolding nx nb R_def X_def B_def .
  with r show ?thesis by blast
qed

lemma division_identity_value:
  assumes "wf_int2048 x" "wf_int2048 b" "\<not> is_zero b"
  shows "\<exists>p r. mul_op (div_op x b) b = Some p \<and> mod_op x b = Some r
           \<and> eq_op (add p r) x = (\<not> (neg x \<and> neg b) \<or> value_of x mod value_of b = 0)"
proof -
  obtain qa ra where dm: "divmod_abs (x\<lparr>neg := False\<rparr>) (b\<lparr>neg := False\<rparr>) = (qa, ra)"
    by (cases "divmod_abs (x\<lparr>neg := False\<rparr>) (b\<lparr>neg := False\<rparr>)")
  note dc = div_op_correct(1,2)[OF assms dm]
  from mul_op_total[OF dc(1) assms(2)] obtain p where
    p: "mul_op (div_op x b) b = Some p" "wf_int2048 p"
       "value_of p = value_of (div_op x b) * value_of b" by auto
  from mod_op_value[OF assms] obtain r where r: "mod_op x b = Some r" "wf_int2048 r"
    "value_of r = (if neg x \<and> neg b then - (value_of x mod value_of b) else value_of x mod value_of b)"
    by auto
  have s: "value_of (add p r) = value_of p + value_of r" by (rule add_value[OF p(2) r(2)])
  have w: "wf_int2048 (add p r)" by (rule add_wf[OF p(2) r(2)])
  have pv: "value_of p = value_of x - value_of x mod value_of b"
    unfolding p(3) dc(2) by (simp add: minus_mod_eq_div_mult)
  have "eq_op (add p r) x = (value_of p + value_of r = value_of x)"
    using eq_op_value[OF w assms(1)] s by simp
  also have "\<dots> = (\<not> (neg x \<and> neg b) \<or> value_of x mod value_of b = 0)"
    unfolding pv r(3) by auto
  finally have fin: "eq_op (add p r) x = (\<not> (neg x \<and> neg b) \<or> value_of x mod value_of b = 0)" .
  show ?thesis by (intro exI[of _ p] exI[of _ r] conjI) (rule p(1) r(1) fin)+
qed

section \<open>Division and modulo by zero\<close>

text \<open>
  Claim C8.  For every well-formed \<open>x\<close> and a divisor \<open>b\<close> that is zero, \<open>x % b\<close>
  returns the magnitude of \<open>x\<close> with the sign flag cleared, which denotes the absolute
  value of \<open>x\<close>, and \<open>x / b\<close> returns zero.  No call fails: \<open>mod_op\<close> returns \<open>Some\<close>.
\<close>

theorem mod_by_zero_is_abs:
  assumes "wf_int2048 x" "wf_int2048 b" "is_zero b"
  shows "mod_op x b = Some (x\<lparr>neg := False\<rparr>) \<and> value_of (x\<lparr>neg := False\<rparr>) = \<bar>value_of x\<bar>
         \<and> div_op x b = zero_int2048"
  using wf_is_zero[OF assms(2,3)] mod_op_zero[OF assms(1)] value_of_abs[OF assms(1)] div_op_zero
  by simp

theorem mod_by_zero_is_abs_witness:
  "mod_op (read ''-5'') (read ''0'') = Some (read ''5'') \<and> mod_op (read ''5'') (read ''0'') = Some (read ''5'')
   \<and> div_op (read ''-5'') (read ''0'') = read ''0''"
proof -
  have 1: "wf_int2048 (read ''-5'')" by code_simp
  have 2: "wf_int2048 (read ''5'')" by code_simp
  have 3: "wf_int2048 (read ''0'')" by code_simp
  have 4: "is_zero (read ''0'')" by code_simp
  have 5: "(read ''-5'')\<lparr>neg := False\<rparr> = read ''5''" by code_simp
  have 6: "(read ''5'')\<lparr>neg := False\<rparr> = read ''5''" by code_simp
  have 7: "read ''0'' = zero_int2048" by code_simp
  show ?thesis
    using mod_by_zero_is_abs[OF 1 3 4] mod_by_zero_is_abs[OF 2 3 4] 5 6 7 by simp
qed

text \<open>
  Claim C3, as the source has it.  The claim says that \<open>x / 0\<close> and \<open>x % 0\<close> are both
  zero.  The magnitude routine does return the pair of zeros and \<open>x / 0\<close> is zero, but
  \<open>operator%=\<close> does not use that remainder: it computes \<open>x - (x / b) * b\<close>, and so
  \<open>5 % 0\<close> is \<open>5\<close>.
\<close>

theorem mod_by_zero_not_zero:
  "mod_op (read ''5'') (read ''0'') = Some (read ''5'') \<and> read ''5'' \<noteq> read ''0''
   \<and> is_zero (read ''0'')"
  by code_simp

text \<open>
  Claim C3, amended.  For every well-formed \<open>x\<close> and a divisor \<open>b\<close> that is zero, no
  call fails, the magnitude routine returns the pair of zeros, \<open>x / b\<close> is zero, and,
  when \<open>x\<close> is not negative, \<open>x % b\<close> is \<open>x\<close> itself.
\<close>

theorem div_mod_by_zero:
  assumes "wf_int2048 x" "wf_int2048 b" "is_zero b"
  shows "divmod_abs (x\<lparr>neg := False\<rparr>) (b\<lparr>neg := False\<rparr>) = (zero_int2048, zero_int2048)
         \<and> div_op x b = zero_int2048
         \<and> (\<not> neg x \<longrightarrow> mod_op x b = Some x)"
proof -
  have b: "b = zero_int2048" by (rule wf_is_zero[OF assms(2,3)])
  have "\<not> neg x \<Longrightarrow> x\<lparr>neg := False\<rparr> = x" by simp
  then show ?thesis
    using mod_op_zero[OF assms(1)] by (auto simp: b divmod_abs_zero div_op_zero)
qed

theorem div_mod_by_zero_witness:
  "divmod_abs (read ''5'') (read ''0'') = (zero_int2048, zero_int2048)
   \<and> div_op (read ''5'') (read ''0'') = zero_int2048
   \<and> mod_op (read ''5'') (read ''0'') = Some (read ''5'')"
proof -
  have 1: "wf_int2048 (read ''5'')" by code_simp
  have 2: "wf_int2048 (read ''0'')" by code_simp
  have 3: "is_zero (read ''0'')" by code_simp
  have 4: "\<not> neg (read ''5'')" by code_simp
  have 5: "(read ''5'')\<lparr>neg := False\<rparr> = read ''5''" by code_simp
  have 6: "(read ''0'')\<lparr>neg := False\<rparr> = read ''0''" by code_simp
  show ?thesis
    using div_mod_by_zero[OF 1 2 3] 4 5 6 by simp
qed

section \<open>The sign of the remainder\<close>

text \<open>
  Claim C1, measured on the source.  The remainder should have the sign of the divisor
  or be zero.  For well-formed \<open>x\<close> and \<open>b\<close>, \<open>b\<close> not zero, \<open>x % b\<close> never fails and
  denotes the floor remainder \<open>value_of x mod value_of b\<close>, whose sign is the
  divisor's, except when both operands are negative: then it denotes the negation of
  the floor remainder, which is positive under a negative divisor unless it is zero.
  There \<open>operator%=\<close> assigns the magnitude returned by \<open>add_abs\<close> or \<open>sub_abs\<close>, whose
  flag is clear, and \<open>this->neg = this->neg\<close> leaves it clear.
\<close>

theorem mod_op_loses_sign_of_negatives:
  assumes "wf_int2048 x" "wf_int2048 b" "\<not> is_zero b"
  shows "\<exists>r. mod_op x b = Some r \<and> wf_int2048 r
           \<and> value_of r = (if neg x \<and> neg b then - (value_of x mod value_of b)
                           else value_of x mod value_of b)"
  by (rule mod_op_value[OF assms])

text \<open>
  At \<open>-7 % -5\<close> the quotient is \<open>1\<close> and the product \<open>-5\<close>; the result is \<open>2\<close>, where
  the floor remainder is \<open>-2\<close>.  The member \<open>minus\<close>, which has the same three branches
  and sets the flag from the saved sign, gives \<open>-2\<close> for the same difference
  \<open>-7 - (-5)\<close>.
\<close>

theorem mod_of_negatives_is_positive:
  "mod_op (read ''-7'') (read ''-5'') = Some (read ''2'')
   \<and> value_of (read ''2'') = - (value_of (read ''-7'') mod value_of (read ''-5''))
   \<and> value_of (read ''2'') = 2 \<and> value_of (read ''-5'') = - 5 \<and> value_of (read ''-7'') = - 7
   \<and> div_op (read ''-7'') (read ''-5'') = read ''1''
   \<and> mul_op (read ''1'') (read ''-5'') = Some (read ''-5'')
   \<and> minus_op (read ''-7'') (read ''-5'') = read ''-2''"
proof -
  have 1: "wf_int2048 (read ''-7'')" by code_simp
  have 2: "wf_int2048 (read ''-5'')" by code_simp
  have 3: "\<not> is_zero (read ''-5'')" by code_simp
  have 4: "mod_op (read ''-7'') (read ''-5'') = Some (read ''2'')" by code_simp
  have 5: "neg (read ''-7'')" "neg (read ''-5'')" by code_simp+
  have 6: "value_of (read ''2'') = 2" "value_of (read ''-5'') = - 5" "value_of (read ''-7'') = - 7"
    by code_simp+
  have 7: "div_op (read ''-7'') (read ''-5'') = read ''1''" by code_simp
  have 8: "mul_op (read ''1'') (read ''-5'') = Some (read ''-5'')" by code_simp
  have 9: "minus_op (read ''-7'') (read ''-5'') = read ''-2''" by code_simp
  from mod_op_loses_sign_of_negatives[OF 1 2 3] 4 5
  have 10: "value_of (read ''2'') = - (value_of (read ''-7'') mod value_of (read ''-5''))"
    by auto
  show ?thesis by (intro conjI) (rule 4 10 6 7 8 9)+
qed

text \<open>
  Claim C2, measured on the source.  For well-formed \<open>x\<close> and \<open>b\<close>, \<open>b\<close> not zero, the
  three operations of \<open>(x / b) * b + x % b\<close> never fail, and \<open>operator==\<close> finds the sum
  equal to \<open>x\<close> exactly when the operands are not both negative or \<open>b\<close> divides \<open>x\<close>.
  For two negative operands with a remainder the identity fails, through the
  remainder of claim C1.
\<close>

theorem division_identity_fails_only_for_negatives:
  assumes "wf_int2048 x" "wf_int2048 b" "\<not> is_zero b"
  shows "\<exists>p r. mul_op (div_op x b) b = Some p \<and> mod_op x b = Some r
           \<and> eq_op (add p r) x = (\<not> (neg x \<and> neg b) \<or> value_of x mod value_of b = 0)"
  by (rule division_identity_value[OF assms])

text \<open>
  At \<open>x = -7\<close> and \<open>b = -5\<close> the source computes \<open>1 * (-5) + 2\<close>, which is \<open>-3\<close>, and
  \<open>operator==\<close> against \<open>-7\<close> answers false.
\<close>

theorem division_identity_fails_for_negatives:
  "div_op (read ''-7'') (read ''-5'') = read ''1''
   \<and> mul_op (read ''1'') (read ''-5'') = Some (read ''-5'')
   \<and> mod_op (read ''-7'') (read ''-5'') = Some (read ''2'')
   \<and> add (read ''-5'') (read ''2'') = read ''-3''
   \<and> eq_op (add (read ''-5'') (read ''2'')) (read ''-7'') = False
   \<and> value_of (read ''-7'') mod value_of (read ''-5'') = - 2"
proof -
  have 1: "wf_int2048 (read ''-7'')" by code_simp
  have 2: "wf_int2048 (read ''-5'')" by code_simp
  have 3: "\<not> is_zero (read ''-5'')" by code_simp
  have 4: "div_op (read ''-7'') (read ''-5'') = read ''1''" by code_simp
  have 5: "mul_op (read ''1'') (read ''-5'') = Some (read ''-5'')" by code_simp
  have 6: "mod_op (read ''-7'') (read ''-5'') = Some (read ''2'')" by code_simp
  have 7: "add (read ''-5'') (read ''2'') = read ''-3''" by code_simp
  have 8: "neg (read ''-7'')" "neg (read ''-5'')" by code_simp+
  have 9: "value_of (read ''-7'') mod value_of (read ''-5'') = - 2" by code_simp
  from division_identity_fails_only_for_negatives[OF 1 2 3] 5 6 8 9
  have 10: "eq_op (add (read ''-5'') (read ''2'')) (read ''-7'') = False"
    unfolding 4 by auto
  show ?thesis by (intro conjI) (rule 4 5 6 7 10 9)+
qed

section \<open>Long division\<close>

text \<open>
  Claim C6.  For well-formed \<open>u\<close> and a well-formed divisor \<open>v\<close> that is not zero,
  \<open>divmod_abs\<close> returns a well-formed quotient \<open>q\<close> and remainder \<open>r\<close> with
  \<open>u = q * v + r\<close> and \<open>0 \<le> r < v\<close> as magnitudes.  When the magnitude of \<open>u\<close> is below
  the one of \<open>v\<close>, the quotient is zero and the remainder is \<open>u\<close> itself.  Otherwise
  the loop runs once for every position from the difference of the lengths down to
  zero; in the pass for position \<open>pos\<close> the shifted divisor is \<open>v * BASE ^ pos\<close>, the
  digit \<open>best\<close> lies in \<open>[0, BASE - 1]\<close>, satisfies \<open>best * vshift \<le> rem\<close> and is exceeded
  by no other such digit, the running remainder goes down by \<open>best * vshift\<close>, and
  \<open>best\<close> is the block of the quotient at that position; the quotient returned is the
  trimmed one.
\<close>

theorem divmod_abs_long_division:
  assumes "wf_int2048 u" "wf_int2048 v" "\<not> is_zero v" "divmod_abs u v = (q, r)"
  shows "wf_int2048 q \<and> wf_int2048 r
         \<and> mag (a u) = mag (a q) * mag (a v) + mag (a r) \<and> 0 \<le> mag (a r) \<and> mag (a r) < mag (a v)
         \<and> (abs_compare u v < 0) = (mag (a u) < mag (a v))
         \<and> (mag (a u) < mag (a v) \<longrightarrow> q = zero_int2048 \<and> r = u)
         \<and> (\<not> mag (a u) < mag (a v) \<longrightarrow>
              (case divmod_loop (Suc (length (a u) - length (a v)))
                      (v\<lparr>a := replicate (length (a u) - length (a v)) 0 @ a v\<rparr>) u
                      (zero_int2048\<lparr>a := replicate (length (a u) - length (a v) + 1) 0\<rparr>) of
                 (rem, q1) \<Rightarrow>
                   q = trim q1 \<and> r = rem\<lparr>neg := False\<rparr>
                   \<and> map fst (divmod_states (Suc (length (a u) - length (a v)))
                         (v\<lparr>a := replicate (length (a u) - length (a v)) 0 @ a v\<rparr>) u
                         (zero_int2048\<lparr>a := replicate (length (a u) - length (a v) + 1) 0\<rparr>))
                       = rev [0..<Suc (length (a u) - length (a v))]
                   \<and> list_all (\<lambda>(pos, vs, rm, best, rm1).
                         mag (a vs) = BASE ^ pos * mag (a v)
                         \<and> 0 \<le> best \<and> best \<le> BASE - 1 \<and> best * mag (a vs) \<le> mag (a rm)
                         \<and> (\<forall>d. 0 \<le> d \<and> d \<le> BASE - 1 \<and> d * mag (a vs) \<le> mag (a rm) \<longrightarrow> d \<le> best)
                         \<and> mag (a rm1) = mag (a rm) - best * mag (a vs)
                         \<and> a q1 ! pos = best)
                       (divmod_states (Suc (length (a u) - length (a v)))
                         (v\<lparr>a := replicate (length (a u) - length (a v)) 0 @ a v\<rparr>) u
                         (zero_int2048\<lparr>a := replicate (length (a u) - length (a v) + 1) 0\<rparr>))))"
proof -
  note c = divmod_abs_correct[OF assms]
  have r0: "0 \<le> mag (a r)" using c by (simp add: wf_int2048_def mag_nonneg)
  have small: "mag (a u) < mag (a v) \<longrightarrow> q = zero_int2048 \<and> r = u"
    using divmod_abs_small[OF assms(1,2,3)] assms(4) by simp
  define k where "k = length (a u) - length (a v)"
  define vs0 where "vs0 = v\<lparr>a := replicate k 0 @ a v\<rparr>"
  define q0 where "q0 = zero_int2048\<lparr>a := replicate (k + 1) 0\<rparr>"
  have big: "\<not> mag (a u) < mag (a v) \<longrightarrow>
              (case divmod_loop (Suc k) vs0 u q0 of
                 (rem, q1) \<Rightarrow>
                   q = trim q1 \<and> r = rem\<lparr>neg := False\<rparr>
                   \<and> map fst (divmod_states (Suc k) vs0 u q0) = rev [0..<Suc k]
                   \<and> list_all (\<lambda>(pos, vs, rm, best, rm1).
                         mag (a vs) = BASE ^ pos * mag (a v)
                         \<and> 0 \<le> best \<and> best \<le> BASE - 1 \<and> best * mag (a vs) \<le> mag (a rm)
                         \<and> (\<forall>d. 0 \<le> d \<and> d \<le> BASE - 1 \<and> d * mag (a vs) \<le> mag (a rm) \<longrightarrow> d \<le> best)
                         \<and> mag (a rm1) = mag (a rm) - best * mag (a vs)
                         \<and> a q1 ! pos = best)
                       (divmod_states (Suc k) vs0 u q0))"
  proof
    assume ge: "\<not> mag (a u) < mag (a v)"
    then have nl: "\<not> abs_compare u v < 0" using abs_compare_lt0[OF assms(1,2)] by simp
    have ne: "a v \<noteq> []" using assms(3) by (simp add: is_zero_def)
    obtain rem q1 where loop: "divmod_loop (Suc k) vs0 u q0 = (rem, q1)"
      by (cases "divmod_loop (Suc k) vs0 u q0") auto
    have eq: "(if 0 < k then v\<lparr>a := replicate k 0 @ a v\<rparr> else v) = vs0"
      by (simp add: vs0_def)
    have res: "divmod_abs u v = (trim q1, rem\<lparr>neg := False\<rparr>)"
      using assms(3) nl loop
      unfolding divmod_abs_def Let_def k_def[symmetric] eq of_ll_0 q0_def[symmetric]
      by (simp del: divmod_loop.simps)
    have lt: "mag (a u) < BASE ^ Suc k * mag (a v)"
      unfolding k_def by (rule divmod_abs_start[OF assms(1,2) ne]) (use ge in simp)
    have st: "list_all (\<lambda>(pos, vs, rm, best, rm1).
         pos < Suc k \<and> wf_int2048 vs \<and> wf_int2048 rm \<and> mag (a vs) = BASE ^ pos * mag (a v)
         \<and> 0 \<le> best \<and> best \<le> BASE - 1 \<and> best * mag (a vs) \<le> mag (a rm)
         \<and> (\<forall>d. 0 \<le> d \<and> d \<le> BASE - 1 \<and> d * mag (a vs) \<le> mag (a rm) \<longrightarrow> d \<le> best)
         \<and> mag (a rm1) = mag (a rm) - best * mag (a vs)
         \<and> a q1 ! pos = best)
       (divmod_states (Suc k) vs0 u q0)"
      by (rule divmod_states_inv[OF assms(2) ne assms(1) lt _ _ loop]) (simp_all add: vs0_def q0_def)
    have st': "list_all (\<lambda>(pos, vs, rm, best, rm1).
         mag (a vs) = BASE ^ pos * mag (a v)
         \<and> 0 \<le> best \<and> best \<le> BASE - 1 \<and> best * mag (a vs) \<le> mag (a rm)
         \<and> (\<forall>d. 0 \<le> d \<and> d \<le> BASE - 1 \<and> d * mag (a vs) \<le> mag (a rm) \<longrightarrow> d \<le> best)
         \<and> mag (a rm1) = mag (a rm) - best * mag (a vs)
         \<and> a q1 ! pos = best)
       (divmod_states (Suc k) vs0 u q0)"
      using st unfolding list_all_iff by fast
    have qr: "q = trim q1" "r = rem\<lparr>neg := False\<rparr>" using res assms(4) by simp_all
    show "case divmod_loop (Suc k) vs0 u q0 of
            (rem, q1) \<Rightarrow>
              q = trim q1 \<and> r = rem\<lparr>neg := False\<rparr>
              \<and> map fst (divmod_states (Suc k) vs0 u q0) = rev [0..<Suc k]
              \<and> list_all (\<lambda>(pos, vs, rm, best, rm1).
                    mag (a vs) = BASE ^ pos * mag (a v)
                    \<and> 0 \<le> best \<and> best \<le> BASE - 1 \<and> best * mag (a vs) \<le> mag (a rm)
                    \<and> (\<forall>d. 0 \<le> d \<and> d \<le> BASE - 1 \<and> d * mag (a vs) \<le> mag (a rm) \<longrightarrow> d \<le> best)
                    \<and> mag (a rm1) = mag (a rm) - best * mag (a vs)
                    \<and> a q1 ! pos = best)
                  (divmod_states (Suc k) vs0 u q0)"
      unfolding loop prod.case using qr st' divmod_states_positions[of "Suc k" vs0 u q0]
      by (intro conjI)
  qed
  have c1: "wf_int2048 q" and c2: "wf_int2048 r"
    and c3: "mag (a u) = mag (a q) * mag (a v) + mag (a r)" and c4: "mag (a r) < mag (a v)"
    using c by simp_all
  note c5 = abs_compare_lt0[OF assms(1,2)]
  show ?thesis
    by (intro conjI) (rule c1 c2 c3 r0 c4 c5 small big[unfolded k_def vs0_def q0_def])+
qed

theorem divmod_abs_long_division_witness:
  "divmod_abs (read ''123456789012345678901234567890'') (read ''987654321'')
     = (read ''124999998873437499901'', read ''574845669'')
   \<and> mag (a (read ''123456789012345678901234567890''))
       = mag (a (read ''124999998873437499901'')) * mag (a (read ''987654321''))
         + mag (a (read ''574845669''))
   \<and> mag (a (read ''574845669'')) < mag (a (read ''987654321''))
   \<and> divmod_abs (read ''17'') (read ''987654321'') = (zero_int2048, read ''17'')
   \<and> map (\<lambda>(pos, vs, rm, best, rm1). (pos, best))
         (divmod_states 3 ((read ''3'')\<lparr>a := replicate 2 0 @ a (read ''3'')\<rparr>) (read ''100000007'')
            (zero_int2048\<lparr>a := replicate 3 0\<rparr>))
       = [(2, 0), (1, 3333), (0, 3335)]"
proof -
  have 11: "map (\<lambda>(pos, vs, rm, best, rm1). (pos, best))
         (divmod_states 3 ((read ''3'')\<lparr>a := replicate 2 0 @ a (read ''3'')\<rparr>) (read ''100000007'')
            (zero_int2048\<lparr>a := replicate 3 0\<rparr>))
       = [(2, 0), (1, 3333), (0, 3335)]" by code_simp
  have 1: "wf_int2048 (read ''123456789012345678901234567890'')" by code_simp
  have 2: "wf_int2048 (read ''987654321'')" by code_simp
  have 3: "\<not> is_zero (read ''987654321'')" by code_simp
  have 4: "divmod_abs (read ''123456789012345678901234567890'') (read ''987654321'')
     = (read ''124999998873437499901'', read ''574845669'')" by code_simp
  have 5: "wf_int2048 (read ''17'')" by code_simp
  have 6: "mag (a (read ''17'')) < mag (a (read ''987654321''))" by code_simp
  obtain q r where 7: "divmod_abs (read ''17'') (read ''987654321'') = (q, r)"
    by (cases "divmod_abs (read ''17'') (read ''987654321'')")
  note s = divmod_abs_long_division[OF 5 2 3 7]
  from s have "mag (a (read ''17'')) < mag (a (read ''987654321'')) \<longrightarrow> q = zero_int2048 \<and> r = read ''17''"
    by (elim conjE) assumption
  with 6 have 8: "q = zero_int2048" "r = read ''17''" by simp_all
  note t = divmod_abs_long_division[OF 1 2 3 4]
  from t have 9: "mag (a (read ''123456789012345678901234567890''))
       = mag (a (read ''124999998873437499901'')) * mag (a (read ''987654321''))
         + mag (a (read ''574845669''))"
    by (elim conjE) assumption
  from t have 10: "mag (a (read ''574845669'')) < mag (a (read ''987654321''))"
    by (elim conjE) assumption
  show ?thesis
    by (intro conjI) (rule 4 9 10 7[unfolded 8] 11)+
qed

section \<open>Floor division\<close>

text \<open>
  Claim C5.  For well-formed \<open>x\<close> and a well-formed divisor \<open>b\<close> that is not zero,
  \<open>x / b\<close> denotes the floor of the quotient of the two numbers.  The magnitude
  quotient \<open>qa\<close> and remainder \<open>ra\<close> are those of the absolute values.  When the signs
  differ and \<open>ra\<close> is not zero, the result has the magnitude of \<open>qa\<close> plus one and is
  negative; otherwise it has the blocks of \<open>qa\<close> and is negative exactly when the signs
  differ and \<open>qa\<close> is not zero.  In particular \<open>-5 / 3\<close> is \<open>-2\<close>.
\<close>

theorem div_op_is_floor_division:
  assumes "wf_int2048 x" "wf_int2048 b" "\<not> is_zero b"
    and "divmod_abs (x\<lparr>neg := False\<rparr>) (b\<lparr>neg := False\<rparr>) = (qa, ra)"
  shows "value_of (div_op x b) = value_of x div value_of b
         \<and> mag (a qa) = \<bar>value_of x\<bar> div \<bar>value_of b\<bar>
         \<and> mag (a ra) = \<bar>value_of x\<bar> mod \<bar>value_of b\<bar>
         \<and> ((neg x \<noteq> neg b) \<and> \<not> is_zero ra \<longrightarrow>
               mag (a (div_op x b)) = mag (a qa) + 1 \<and> neg (div_op x b))
         \<and> (\<not> ((neg x \<noteq> neg b) \<and> \<not> is_zero ra) \<longrightarrow>
               a (div_op x b) = a qa \<and> neg (div_op x b) = ((neg x \<noteq> neg b) \<and> \<not> is_zero qa))
         \<and> wf_int2048 (div_op x b)
         \<and> div_op (read ''-5'') (read ''3'') = read ''-2''
         \<and> print (div_op (read ''-5'') (read ''3'')) = ''-2''"
proof -
  note c = div_op_correct[OF assms]
  note d = div_op_cases[OF assms(4)]
  have one: "mag (a (add_abs qa (of_ll 1))) = mag (a qa) + 1" by (rule add_abs_one(2)[OF c(5)])
  have ex: "div_op (read ''-5'') (read ''3'') = read ''-2''" by code_simp
  have pr: "print (read ''-2'') = ''-2''" by code_simp
  show ?thesis
    using c(1,2,3,4) d one ex pr value_of_mag[OF assms(1)] value_of_mag[OF assms(2)] by simp
qed

theorem div_op_is_floor_division_witness:
  "value_of (div_op (read ''-5'') (read ''3'')) = - 2
   \<and> value_of (read ''-5'') = - 5 \<and> value_of (read ''3'') = 3
   \<and> divmod_abs (read ''5'') (read ''3'') = (read ''1'', read ''2'')
   \<and> a (div_op (read ''-5'') (read ''3'')) = [2] \<and> neg (div_op (read ''-5'') (read ''3''))"
proof -
  have 1: "wf_int2048 (read ''-5'')" by code_simp
  have 2: "wf_int2048 (read ''3'')" by code_simp
  have 3: "\<not> is_zero (read ''3'')" by code_simp
  have 4: "divmod_abs ((read ''-5'')\<lparr>neg := False\<rparr>) ((read ''3'')\<lparr>neg := False\<rparr>)
            = (read ''1'', read ''2'')" by code_simp
  have 5: "value_of (read ''-5'') = - 5" "value_of (read ''3'') = 3" by code_simp+
  have 6: "divmod_abs (read ''5'') (read ''3'') = (read ''1'', read ''2'')" by code_simp
  have 7: "a (read ''-2'') = [2]" "neg (read ''-2'')" "value_of (read ''-2'') = - 2" by code_simp+
  note t = div_op_is_floor_division[OF 1 2 3 4]
  from t have 8: "div_op (read ''-5'') (read ''3'') = read ''-2''" by (elim conjE) assumption
  from t have 9: "value_of (div_op (read ''-5'') (read ''3'')) = value_of (read ''-5'') div value_of (read ''3'')"
    by (elim conjE) assumption
  show ?thesis using 5 6 7 8 9 by simp
qed

section \<open>Construction from a machine integer\<close>

text \<open>
  Claim C10.  For every 64-bit \<open>v\<close>, the least value \<open>- 2 ^ 63\<close> included, the object
  built by \<open>int2048(long long)\<close> is well formed and denotes the signed value of \<open>v\<close>.
  Its magnitude is the unsigned reading of \<open>- v\<close> for a negative \<open>v\<close>, and the negation
  is the one modulo \<open>2 ^ 64\<close>.
\<close>

theorem of_ll_denotes_its_argument:
  "value_of (of_ll v) = sint v \<and> wf_int2048 (of_ll v)
   \<and> mag (a (of_ll v)) = uint (if sint v < 0 then - v else v)
   \<and> uint (- v) = (- uint v) mod 2 ^ 64
   \<and> neg (of_ll v) = (sint v < 0)"
proof -
  have n: "neg (of_ll v) = (sint v < 0)"
  proof (cases "a (of_ll v) = []")
    case True
    then have "mag (a (of_ll v)) = 0" by simp
    moreover have "\<not> neg (of_ll v)" using True of_ll_correct[of v] by (simp add: wf_int2048_def canonical_def)
    ultimately show ?thesis using of_ll_correct[of v] by (simp add: value_of_def)
  next
    case False
    have "a (trim y) \<noteq> [] \<Longrightarrow> neg (trim y) = neg y" for y by (simp add: trim_def Let_def)
    from this[of "\<lparr>a = of_ll_loop (if sint v < 0 then - v else v) [], neg = sint v < 0\<rparr>"] False
    show ?thesis by (simp add: of_ll_def Let_def)
  qed
  show ?thesis using of_ll_correct[of v] of_ll_mag[of v] n by (simp add: uint_word_ariths)
qed

theorem of_ll_denotes_its_argument_witness:
  "value_of (of_ll (- 9223372036854775808)) = - 9223372036854775808
   \<and> print (of_ll (- 9223372036854775808)) = ''-9223372036854775808''
   \<and> value_of (of_ll 12345678) = 12345678"
proof -
  have 1: "sint (- 9223372036854775808 :: 64 word) = - 9223372036854775808" by simp
  have 2: "print (of_ll (- 9223372036854775808)) = ''-9223372036854775808''" by code_simp
  have 3: "sint (12345678 :: 64 word) = 12345678" by simp
  show ?thesis
    using of_ll_denotes_its_argument[of "- 9223372036854775808"]
      of_ll_denotes_its_argument[of 12345678] 1 2 3 by simp
qed

section \<open>Printing\<close>

text \<open>
  Claim C9.  For every well-formed object, \<open>print\<close> and \<open>operator<<\<close> write the same
  characters, and they are the rendering of the specification: \<open>0\<close> for zero, a
  leading \<open>-\<close> for a negative value, the most-significant block unpadded, and each
  lower block zero-padded to exactly four decimal digits.
\<close>

theorem print_and_shift_out_agree:
  assumes "wf_int2048 x"
  shows "print x = shift_out x \<and> print x = format_spec x
         \<and> list_all (\<lambda>v. length (pad4 (nat v)) = 4) (a x)"
proof -
  have "digits_ok (a x)" using assms by (simp add: wf_int2048_def)
  then have "list_all (\<lambda>v. length (pad4 (nat v)) = 4) (a x)"
    by (auto simp: digits_ok_def list_all_iff BASE_def intro!: pad4_length)
  then show ?thesis using print_correct[OF assms] by simp
qed

theorem print_and_shift_out_agree_witness:
  "print (read ''-1000020003'') = ''-1000020003'' \<and> shift_out (read ''-1000020003'') = ''-1000020003''
   \<and> format_spec (read ''-1000020003'') = ''-1000020003'' \<and> a (read ''-1000020003'') = [3, 2, 10]
   \<and> print (read ''0'') = ''0'' \<and> shift_out (read ''0'') = ''0''"
proof -
  have 1: "wf_int2048 (read ''-1000020003'')" by code_simp
  have 2: "wf_int2048 (read ''0'')" by code_simp
  have 3: "print (read ''-1000020003'') = ''-1000020003''" by code_simp
  have 4: "a (read ''-1000020003'') = [3, 2, 10]" by code_simp
  have 5: "print (read ''0'') = ''0''" by code_simp
  show ?thesis
    using print_and_shift_out_agree[OF 1] print_and_shift_out_agree[OF 2] 3 4 5 by simp
qed

section \<open>The representation invariant\<close>

text \<open>
  Claim C7.  Every public operation returns an object in canonical form: the
  most-significant stored block, if any, is not zero, and an object without blocks is
  not negative.  The constructors and \<open>read\<close> do so on every input; the arithmetic
  operations do so on operands that are themselves well formed, that is canonical with
  every block in \<open>[0, BASE)\<close>, and their results are well formed again, so the
  invariant holds of every object the public operations can build.  Multiplication
  and modulo never index their vectors out of range: they return \<open>Some\<close>.
\<close>

theorem public_operations_keep_canonical_form:
  assumes "wf_int2048 x" "wf_int2048 y"
  shows "canonical zero_int2048 \<and> canonical (of_ll v) \<and> canonical (read s)
         \<and> canonical (copy_int2048 x)
         \<and> canonical (add x y) \<and> canonical (minus_op x y) \<and> canonical (uminus_op x)
         \<and> (\<exists>r. mul_op x y = Some r \<and> canonical r \<and> wf_int2048 r)
         \<and> canonical (div_op x y)
         \<and> (\<exists>r. mod_op x y = Some r \<and> canonical r \<and> wf_int2048 r)
         \<and> wf_int2048 zero_int2048 \<and> wf_int2048 (of_ll v) \<and> wf_int2048 (read s)
         \<and> wf_int2048 (copy_int2048 x)
         \<and> wf_int2048 (add x y) \<and> wf_int2048 (minus_op x y) \<and> wf_int2048 (uminus_op x)
         \<and> wf_int2048 (div_op x y)"
proof -
  have c: "wf_int2048 r \<Longrightarrow> canonical r" for r by (simp add: wf_int2048_def)
  have w1: "wf_int2048 zero_int2048" by (rule wf_zero)
  have w2: "wf_int2048 (of_ll v)" using of_ll_correct[of v] by simp
  have w3: "wf_int2048 (read s)" by (rule read_wf)
  have w4: "wf_int2048 (copy_int2048 x)" using assms(1) by (simp add: copy_int2048_def wf_int2048_def canonical_def)
  have w5: "wf_int2048 (add x y)" by (rule add_wf[OF assms])
  have w6: "wf_int2048 (minus_op x y)" by (rule minus_op_wf[OF assms])
  have w7: "wf_int2048 (uminus_op x)" by (rule uminus_op_wf[OF assms(1)])
  have w8: "\<exists>r. mul_op x y = Some r \<and> canonical r \<and> wf_int2048 r"
    using mul_op_total[OF assms] c by blast
  have w9: "wf_int2048 (div_op x y)" by (rule div_op_wf[OF assms])
  have w10: "\<exists>r. mod_op x y = Some r \<and> canonical r \<and> wf_int2048 r"
    using mod_op_wf[OF assms] c by blast
  show ?thesis
    by (intro conjI) (rule c w1 w2 w3 w4 w5 w6 w7 w8 w9 w10 c[OF w1] c[OF w2] c[OF w3] c[OF w4]
        c[OF w5] c[OF w6] c[OF w7] c[OF w9])+
qed

theorem public_operations_keep_canonical_form_witness:
  "canonical (add (read ''1000'') (read ''-1000'')) \<and> add (read ''1000'') (read ''-1000'') = zero_int2048
   \<and> canonical (minus_op (read ''1000'') (read ''-1000''))
   \<and> canonical (div_op (read ''1000'') (read ''-1000''))
   \<and> mul_op (read ''1000'') (read ''-1000'') = Some (read ''-1000000'')
   \<and> mod_op (read ''1000'') (read ''-1000'') = Some zero_int2048
   \<and> canonical (read ''-0000'') \<and> read ''-0000'' = zero_int2048"
proof -
  have 1: "wf_int2048 (read ''1000'')" by code_simp
  have 2: "wf_int2048 (read ''-1000'')" by code_simp
  have 3: "add (read ''1000'') (read ''-1000'') = zero_int2048" by code_simp
  have 4: "mul_op (read ''1000'') (read ''-1000'') = Some (read ''-1000000'')" by code_simp
  have 5: "mod_op (read ''1000'') (read ''-1000'') = Some zero_int2048" by code_simp
  have 6: "read ''-0000'' = zero_int2048" by code_simp
  note t = public_operations_keep_canonical_form[OF 1 2, of 0 "''-0000''"]
  from t have a: "canonical (add (read ''1000'') (read ''-1000''))" by (elim conjE) assumption
  from t have b: "canonical (minus_op (read ''1000'') (read ''-1000''))" by (elim conjE) assumption
  from t have c: "canonical (div_op (read ''1000'') (read ''-1000''))" by (elim conjE) assumption
  from t have d: "canonical (read ''-0000'')" by (elim conjE) assumption
  show ?thesis by (intro conjI) (rule a b c d 3 4 5 6)+
qed

section \<open>Reading a decimal string\<close>

text \<open>
  Claim C4, as the source has it.  The claim takes the magnitude from the longest
  trailing run of digits.  \<open>read\<close> takes it from everything between the sign and the
  last digit, in groups of four characters, and its inner loop passes over a character
  that is not a digit without ending the number: \<open>1a2\<close> is read as \<open>12\<close>, while its
  trailing run of digits is \<open>2\<close>.
\<close>

theorem read_passes_over_inner_non_digits:
  "mag (a (read ''1a2'')) = 12 \<and> trailing_digit_run (spec_body ''1a2'') = ''2''
   \<and> dec_value (trailing_digit_run (spec_body ''1a2'')) = 2"
  by code_simp

text \<open>
  Claim C4, amended.  For every input string, \<open>read\<close> returns a well-formed object;
  it skips the leading whitespace and consumes one optional leading sign.  Of what
  follows, the characters after the last digit are set aside, and the rest is the
  longest trailing run of digits with whatever stands before it.  The parsed magnitude
  is the decimal value of that run exactly when no digit other than \<open>0\<close> stands before
  the run; in particular it is so whenever only characters that are not digits stand
  before the run, as in \<open>abc123\<close>, and then the result is negative exactly when the
  sign is \<open>-\<close> and that value is not zero.  In every case the result is negative
  exactly when the sign is \<open>-\<close> and the parsed magnitude is not zero, and an input
  without any digit yields zero.
\<close>

theorem read_parses_trailing_digit_run:
  "wf_int2048 (read s)
   \<and> (mag (a (read s)) = dec_value (trailing_digit_run (spec_body s)))
       = list_all (\<lambda>c. is_digit c \<longrightarrow> c = CHR ''0'') (before_digit_run (spec_body s))
   \<and> (list_all (\<lambda>c. \<not> is_digit c) (before_digit_run (spec_body s)) \<longrightarrow>
        mag (a (read s)) = dec_value (trailing_digit_run (spec_body s))
        \<and> neg (read s) = (spec_minus s \<and> dec_value (trailing_digit_run (spec_body s)) \<noteq> 0))
   \<and> neg (read s) = (spec_minus s \<and> mag (a (read s)) \<noteq> 0)
   \<and> (list_all (\<lambda>c. \<not> is_digit c) s \<longrightarrow> read s = zero_int2048)"
proof (intro conjI impI)
  show "wf_int2048 (read s)" by (rule read_wf)
next
  show "(mag (a (read s)) = dec_value (trailing_digit_run (spec_body s)))
        = list_all (\<lambda>c. is_digit c \<longrightarrow> c = CHR ''0'') (before_digit_run (spec_body s))"
    by (rule read_run)
next
  assume "list_all (\<lambda>c. \<not> is_digit c) (before_digit_run (spec_body s))"
  then have "list_all (\<lambda>c. is_digit c \<longrightarrow> c = CHR ''0'') (before_digit_run (spec_body s))"
    by (simp add: list_all_iff)
  then show m: "mag (a (read s)) = dec_value (trailing_digit_run (spec_body s))"
    by (rule read_run[THEN iffD2])
  show "neg (read s) = (spec_minus s \<and> dec_value (trailing_digit_run (spec_body s)) \<noteq> 0)"
    unfolding m[symmetric] by (rule read_neg)
next
  show "neg (read s) = (spec_minus s \<and> mag (a (read s)) \<noteq> 0)" by (rule read_neg)
next
  assume "list_all (\<lambda>c. \<not> is_digit c) s"
  then show "read s = zero_int2048" by (rule read_no_digit)
qed

theorem read_parses_trailing_digit_run_witness:
  "mag (a (read ''abc123'')) = 123 \<and> neg (read ''abc123'') = False
   \<and> mag (a (read ''- 5'')) = 5 \<and> neg (read ''- 5'') = True
   \<and> mag (a (read ''x=12345678;'')) = 12345678 \<and> neg (read ''x=12345678;'') = False
   \<and> mag (a (read ''  +007 '')) = 7 \<and> neg (read ''  +007 '') = False
   \<and> mag (a (read ''-0a2'')) = 2 \<and> neg (read ''-0a2'') = True
   \<and> read '' -x'' = zero_int2048"
proof -
  note A = read_parses_trailing_digit_run[of "''abc123''"]
  note B = read_parses_trailing_digit_run[of "''- 5''"]
  note C = read_parses_trailing_digit_run[of "''x=12345678;''"]
  note D = read_parses_trailing_digit_run[of "''  +007 ''"]
  note E = read_parses_trailing_digit_run[of "''-0a2''"]
  note F = read_parses_trailing_digit_run[of "'' -x''"]
  have a0: "list_all (\<lambda>c. \<not> is_digit c) (before_digit_run (spec_body ''abc123''))" by code_simp
  have b0: "list_all (\<lambda>c. \<not> is_digit c) (before_digit_run (spec_body ''- 5''))" by code_simp
  have c0: "list_all (\<lambda>c. \<not> is_digit c) (before_digit_run (spec_body ''x=12345678;''))" by code_simp
  have d0: "list_all (\<lambda>c. \<not> is_digit c) (before_digit_run (spec_body ''  +007 ''))" by code_simp
  have e0: "list_all (\<lambda>c. is_digit c \<longrightarrow> c = CHR ''0'') (before_digit_run (spec_body ''-0a2''))"
    by code_simp
  have f0: "list_all (\<lambda>c. \<not> is_digit c) '' -x''" by code_simp
  have av: "dec_value (trailing_digit_run (spec_body ''abc123'')) = 123" by code_simp
  have bv: "dec_value (trailing_digit_run (spec_body ''- 5'')) = 5" by code_simp
  have cv: "dec_value (trailing_digit_run (spec_body ''x=12345678;'')) = 12345678" by code_simp
  have dv: "dec_value (trailing_digit_run (spec_body ''  +007 '')) = 7" by code_simp
  have ev: "dec_value (trailing_digit_run (spec_body ''-0a2'')) = 2" by code_simp
  have sg: "spec_minus ''abc123'' = False" "spec_minus ''- 5'' = True"
    "spec_minus ''x=12345678;'' = False" "spec_minus ''  +007 '' = False"
    "spec_minus ''-0a2'' = True" by code_simp+
  from A a0 have a1: "mag (a (read ''abc123'')) = dec_value (trailing_digit_run (spec_body ''abc123''))"
    and a2: "neg (read ''abc123'') = (spec_minus ''abc123'' \<and> dec_value (trailing_digit_run (spec_body ''abc123'')) \<noteq> 0)"
    by blast+
  from B b0 have b1: "mag (a (read ''- 5'')) = dec_value (trailing_digit_run (spec_body ''- 5''))"
    and b2: "neg (read ''- 5'') = (spec_minus ''- 5'' \<and> dec_value (trailing_digit_run (spec_body ''- 5'')) \<noteq> 0)"
    by blast+
  from C c0 have c1: "mag (a (read ''x=12345678;'')) = dec_value (trailing_digit_run (spec_body ''x=12345678;''))"
    and c2: "neg (read ''x=12345678;'') = (spec_minus ''x=12345678;'' \<and> dec_value (trailing_digit_run (spec_body ''x=12345678;'')) \<noteq> 0)"
    by blast+
  from D d0 have d1: "mag (a (read ''  +007 '')) = dec_value (trailing_digit_run (spec_body ''  +007 ''))"
    and d2: "neg (read ''  +007 '') = (spec_minus ''  +007 '' \<and> dec_value (trailing_digit_run (spec_body ''  +007 '')) \<noteq> 0)"
    by blast+
  from E e0 have e1: "mag (a (read ''-0a2'')) = dec_value (trailing_digit_run (spec_body ''-0a2''))"
    by blast
  from E have e2: "neg (read ''-0a2'') = (spec_minus ''-0a2'' \<and> mag (a (read ''-0a2'')) \<noteq> 0)"
    by blast
  from F f0 have f1: "read '' -x'' = zero_int2048" by blast
  show ?thesis unfolding a2 b2 c2 d2 e2 a1 b1 c1 d1 e1 f1 av bv cv dv ev sg by simp
qed

end
